theory Spec2Isabelle
  imports Main "HOL-Library.AList"
begin

section \<open>Data model of \<open>src/app/viewer/Viewer.ts\<close>\<close>

text \<open>
  A JavaScript exception is a value. \<open>TypeError\<close> is what the engine raises when a
  property is read or written on \<open>undefined\<close> or \<open>null\<close> (an array read out of range
  yields \<open>undefined\<close>), or when a non-function is called; \<open>Error msg\<close> is
  \<open>throw new Error(msg)\<close>.
\<close>

datatype error = TypeError | Error string

text \<open>
  \<open>ColumnStats\<close> is declared in \<open>../dat/analysis\<close>; the viewer reads exactly these
  fields of it. The three flags are tested for truthiness only.
\<close>

record ColumnStats =
  b00 :: bool
  bMax :: nat
  refString :: bool
  refArray :: bool
  nullableMemsize :: bool
  memsize :: nat

text \<open>
  The type descriptor of a header (declared in \<open>./headers\<close>). Every field is
  optional in the source. \<open>boolean\<close>, \<open>decimal\<close>, \<open>integer\<close> and \<open>string\<close> are only
  tested for truthiness, so they are modelled by whether they are set; \<open>key\<close>
  carries \<open>foreign\<close>, \<open>ref\<close> and \<open>byteView\<close> carry \<open>array\<close>.
\<close>

record HeaderType =
  boolean :: bool
  decimal :: bool
  integer :: bool
  key :: "bool option"
  string_t :: bool
  ref :: "bool option"
  byteView :: "bool option"

text \<open>
  Decoded cell values, as \<open>readColumn\<close> and \<open>cachedView.entriesRaw\<close> deliver them: a
  foreign key decodes to an object \<open>{rid, unknown}\<close>, an array-typed column to an
  array of values.
\<close>

datatype jsval =
    Undefined
  | Null
  | Bool bool
  | Num int
  | Str string
  | KeyObj (rid: int) (unknown: int)
  | Arr "jsval list"

text \<open>
  \<open>Header\<close> (declared in \<open>./headers\<close>). \<open>cachedView\<close> holds the \<open>entriesRaw\<close> array
  of the cached view when there is one. Header objects are shared between the
  header list, the columns that point back at them and the callers, so they live
  in a store and are named by a reference.
\<close>

record Header =
  name :: "string option"
  offset_h :: nat
  length_h :: nat
  type_h :: HeaderType
  cachedView :: "jsval list option"

type_synonym href = nat

record Stats =
  string :: bool
  array :: bool
  b00_s :: bool
  nullable :: bool
  bMax_s :: string

record StateColumn =
  offset :: nat
  colNum99 :: string
  colNum100 :: string
  selected :: bool
  header :: "href option"
  dataStart :: bool
  stats :: Stats

record DatFile =
  rowCount :: nat
  rowLength :: nat
  memsize_f :: nat

section \<open>Number formatting\<close>

text \<open>
  \<open>Number.prototype.toString(radix)\<close> on a non-negative integer, and
  \<open>String.prototype.padStart(n, '0')\<close>.
\<close>

definition digit_char :: "nat \<Rightarrow> char" where
  "digit_char d = (''0123456789abcdef'') ! d"

function toString_radix :: "nat \<Rightarrow> nat \<Rightarrow> string" where
  "toString_radix r n =
     (if r < 2 \<or> n < r then [digit_char n]
      else toString_radix r (n div r) @ [digit_char (n mod r)])"
  by pat_completeness auto
termination
  by (relation "measure (\<lambda>(r, n). n)") auto

definition String_of :: "nat \<Rightarrow> string" where
  "String_of n = toString_radix 10 n"

definition padStart :: "nat \<Rightarrow> char \<Rightarrow> string \<Rightarrow> string" where
  "padStart n c s = replicate (n - length s) c @ s"

section \<open>Building the state columns\<close>

text \<open>
  \<open>stateColumns\<close>, lines 72-111. \<open>settings.colNumStart\<close> is the parameter
  \<open>colNumStart\<close>. The \<open>map\<close> of lines 73-89 builds one fresh object per index.
\<close>

definition newColumn :: "nat \<Rightarrow> ColumnStats list \<Rightarrow> nat \<Rightarrow> StateColumn" where
  "newColumn colNumStart columnStats idx =
     \<lparr> offset = idx,
       colNum99 = padStart 2 CHR ''0'' (String_of ((idx + colNumStart) mod 100)),
       colNum100 = padStart 2 CHR ''0'' (String_of (idx + colNumStart)),
       selected = False,
       header = None,
       dataStart = False,
       stats = \<lparr> string = False,
                 array = False,
                 b00_s = b00 (columnStats ! idx),
                 nullable = False,
                 bMax_s = padStart 2 CHR ''0'' (toString_radix 16 (bMax (columnStats ! idx))) \<rparr> \<rparr>"

definition initColumns :: "nat \<Rightarrow> ColumnStats list \<Rightarrow> StateColumn list" where
  "initColumns colNumStart columnStats =
     map (newColumn colNumStart columnStats) [0 ..< length columnStats]"

text \<open>
  One inner loop, \<open>for (k = 0; k < n; k += 1) columns[idx + k].stats.f = true\<close>:
  \<open>markRun upd i n\<close> has \<open>n\<close> iterations left and is at position \<open>i = idx + k\<close>.
  Past the end of the array \<open>columns[idx + k]\<close> is \<open>undefined\<close> and the property
  access raises.
\<close>

fun markRun :: "(Stats \<Rightarrow> Stats) \<Rightarrow> nat \<Rightarrow> nat \<Rightarrow> StateColumn list \<Rightarrow> error + StateColumn list" where
  "markRun upd i 0 columns = Inr columns"
| "markRun upd i (Suc n) columns =
     (if i < length columns
      then markRun upd (Suc i) n (columns[i := (columns ! i)\<lparr> stats := upd (stats (columns ! i)) \<rparr>])
      else Inl TypeError)"

definition markIf :: "bool \<Rightarrow> (Stats \<Rightarrow> Stats) \<Rightarrow> nat \<Rightarrow> nat \<Rightarrow> StateColumn list \<Rightarrow> error + StateColumn list" where
  "markIf flag upd i n columns = (if flag then markRun upd i n columns else Inr columns)"

text \<open>The body of the outer loop (lines 92-107) for one \<open>idx\<close>.\<close>

definition propagateStat :: "nat \<Rightarrow> ColumnStats \<Rightarrow> StateColumn list \<Rightarrow> error + StateColumn list" where
  "propagateStat idx stat columns =
     (case markIf (refString stat) (\<lambda>s. s\<lparr> string := True \<rparr>) idx (memsize stat) columns of
        Inl e \<Rightarrow> Inl e
      | Inr c1 \<Rightarrow>
          (case markIf (refArray stat) (\<lambda>s. s\<lparr> array := True \<rparr>) idx (memsize stat * 2) c1 of
             Inl e \<Rightarrow> Inl e
           | Inr c2 \<Rightarrow>
               markIf (nullableMemsize stat) (\<lambda>s. s\<lparr> nullable := True \<rparr>) idx (memsize stat) c2))"

text \<open>
  The outer loop, \<open>for (idx = 0; idx < columnStats.length; idx += 1)\<close>: \<open>rest\<close> is
  the part of \<open>columnStats\<close> from \<open>idx\<close> on.
\<close>

fun propagate :: "nat \<Rightarrow> ColumnStats list \<Rightarrow> StateColumn list \<Rightarrow> error + StateColumn list" where
  "propagate idx [] columns = Inr columns"
| "propagate idx (stat # rest) columns =
     (case propagateStat idx stat columns of
        Inl e \<Rightarrow> Inl e
      | Inr columns' \<Rightarrow> propagate (Suc idx) rest columns')"

definition stateColumns :: "nat \<Rightarrow> ColumnStats list \<Rightarrow> error + StateColumn list" where
  "stateColumns colNumStart columnStats =
     propagate 0 columnStats (initColumns colNumStart columnStats)"

section \<open>The viewer and the byte-view toggles\<close>

text \<open>
  The fields of the \<open>Viewer\<close> object (lines 31-37), and the store of the header
  objects. \<open>store\<close> holds the header objects; \<open>headers\<close> and the \<open>header\<close> field of a column
  refer to them. \<open>datFile\<close> is \<open>null\<close> until a file is loaded. The type descriptor
  is part of the header's value, so the sharing of one \<open>type\<close> object between a
  serialized entry and a header (line 143) is not modelled; no operation reads a
  serialized entry again after its header was written.
\<close>

record Viewer =
  headers :: "href list"
  columns :: "StateColumn list"
  datFile :: "DatFile option"
  columnStats :: "ColumnStats list"
  rowNumberLength :: int
  editHeader :: "href option"
  rowSorting :: "nat list option"
  store :: "href \<Rightarrow> Header"

text \<open>\<open>Array.prototype.findIndex\<close>; \<open>None\<close> stands for the result \<open>-1\<close>.\<close>

fun findIndex :: "('a \<Rightarrow> bool) \<Rightarrow> 'a list \<Rightarrow> nat option" where
  "findIndex p [] = None"
| "findIndex p (x # xs) = (if p x then Some 0 else map_option Suc (findIndex p xs))"

text \<open>
  \<open>Array.prototype.splice(start, deleteCount, ...items)\<close> for \<open>start \<ge> 0\<close>: the start
  is clamped to the length, the delete count to between zero and what is left.
  \<open>Array.prototype.slice(start, end)\<close> for non-negative arguments.
\<close>

definition Array_splice :: "nat \<Rightarrow> int \<Rightarrow> 'a list \<Rightarrow> 'a list \<Rightarrow> 'a list" where
  "Array_splice start deleteCount items xs =
     (let s = min start (length xs);
          d = min (nat (max 0 deleteCount)) (length xs - s)
      in take s xs @ items @ drop (s + d) xs)"

definition Array_slice :: "nat \<Rightarrow> nat \<Rightarrow> 'a list \<Rightarrow> 'a list" where
  "Array_slice start end xs = take (end - start) (drop start xs)"

text \<open>
  The operations return the exception raised, if any, together with the viewer as
  the exception leaves it: what was written before a \<open>throw\<close> stays written.
\<close>

definition setByteView :: "bool option \<Rightarrow> href \<Rightarrow> (href \<Rightarrow> Header) \<Rightarrow> (href \<Rightarrow> Header)" where
  "setByteView b r st = st(r := (st r)\<lparr> type_h := (type_h (st r))\<lparr> byteView := b \<rparr> \<rparr>)"

text \<open>
  \<open>disableByteView\<close>, lines 163-170. When no column has the header's offset,
  \<open>colIdx\<close> is \<open>-1\<close>: the splice then starts at index 0 and \<open>columns[-1]\<close> is
  \<open>undefined\<close>, so line 168 raises.
\<close>

definition disableByteView :: "href \<Rightarrow> Viewer \<Rightarrow> error option \<times> Viewer" where
  "disableByteView r v =
     (let st = setByteView None r (store v);
          h = st r;
          deleteCount = int (length_h h) - 1
      in case findIndex (\<lambda>col. offset col = offset_h h) (columns v) of
           None \<Rightarrow>
             (Some TypeError,
              v\<lparr> store := st, columns := Array_splice 0 deleteCount [] (columns v) \<rparr>)
         | Some colIdx \<Rightarrow>
             (let cols = Array_splice (colIdx + 1) deleteCount [] (columns v)
              in (None,
                  v\<lparr> store := st,
                     columns := cols[colIdx := (cols ! colIdx)\<lparr> header := Some r, selected := False \<rparr>] \<rparr>)))"

text \<open>
  \<open>enableByteView\<close>, lines 172-179. \<open>byteView = { array: false }\<close> is \<open>Some False\<close>.
  \<open>stateColumns\<close> may raise before anything but the header has been written.
\<close>

definition enableByteView :: "nat \<Rightarrow> href \<Rightarrow> Viewer \<Rightarrow> error option \<times> Viewer" where
  "enableByteView colNumStart r v =
     (let st = setByteView (Some False) r (store v);
          h = st r;
          colIdx = findIndex (\<lambda>col. offset col = offset_h h) (columns v)
      in case stateColumns colNumStart (columnStats v) of
           Inl e \<Rightarrow> (Some e, v\<lparr> store := st \<rparr>)
         | Inr fresh \<Rightarrow>
             (let items = Array_slice (offset_h h + 1) (offset_h h + length_h h) fresh
              in case colIdx of
                   None \<Rightarrow>
                     (Some TypeError,
                      v\<lparr> store := st, columns := Array_splice 0 0 items (columns v) \<rparr>)
                 | Some i \<Rightarrow>
                     (let cols = Array_splice (i + 1) 0 items (columns v)
                      in (None,
                          v\<lparr> store := st,
                             columns := cols[i := (cols ! i)\<lparr> header := None \<rparr>] \<rparr>))))"

section \<open>Importing a serialized schema\<close>

text \<open>
  A serialized header (\<open>DatSerializedHeader\<close>, declared in \<open>../exporters/internal\<close>):
  the importer reads its \<open>name\<close> and its \<open>type\<close> and hands the entry to
  \<open>getHeaderLength\<close>.
\<close>

record DatSerializedHeader =
  name_s :: "string option"
  type_s :: HeaderType

text \<open>
  The functions the viewer imports from its sibling modules are not part of the
  file; they are parameters. Those that write to an array or an object they are
  given return what they have written. \<open>createHeaderFromSelected\<close> reads the
  columns and returns the reference of the header it hands back, with the header
  list and the store as it leaves them. All of them are taken to return
  normally.
\<close>

record Externals =
  getHeaderLength :: "DatSerializedHeader \<Rightarrow> nat \<Rightarrow> nat"
  validateImportedHeader :: "Header \<Rightarrow> ColumnStats list \<Rightarrow> bool"
  selectColsByHeader :: "Header \<Rightarrow> StateColumn list \<Rightarrow> StateColumn list"
  createHeaderFromSelected ::
    "StateColumn list \<Rightarrow> href list \<Rightarrow> (href \<Rightarrow> Header) \<Rightarrow> href \<times> href list \<times> (href \<Rightarrow> Header)"
  clearColumnSelection :: "StateColumn list \<Rightarrow> StateColumn list"
  cacheHeaderDataView :: "Header \<Rightarrow> DatFile option \<Rightarrow> Header"
  readColumn :: "Header \<Rightarrow> DatFile option \<Rightarrow> jsval list"

text \<open>
  The test of lines 142 and 183,
  \<open>type.boolean || type.decimal || type.integer || type.key || type.string\<close>.
\<close>

definition materializable :: "HeaderType \<Rightarrow> bool" where
  "materializable t \<longleftrightarrow> boolean t \<or> decimal t \<or> integer t \<or> key t \<noteq> None \<or> string_t t"

text \<open>The candidate header of lines 125-129.\<close>

definition candidate :: "nat \<Rightarrow> nat \<Rightarrow> DatSerializedHeader \<Rightarrow> Header" where
  "candidate headerLength off e =
     \<lparr> name = None, offset_h = off, length_h = headerLength, type_h = type_s e, cachedView = None \<rparr>"

text \<open>Lines 136-146, for an entry that has a name and passed the validation.\<close>

definition importEntry :: "Externals \<Rightarrow> DatSerializedHeader \<Rightarrow> Header \<Rightarrow> Viewer \<Rightarrow> error option \<times> Viewer" where
  "importEntry X e cand v =
     (let cols1 = selectColsByHeader X cand (columns v);
          (r, hs, st1) = createHeaderFromSelected X cols1 (headers v) (store v);
          st2 = st1(r := (st1 r)\<lparr> name := name_s e \<rparr>);
          cols2 = clearColumnSelection X cols1;
          v2 = v\<lparr> headers := hs, columns := cols2, store := st2 \<rparr>
      in if materializable (type_s e)
         then (let st3 = st2(r := (st2 r)\<lparr> type_h := type_s e \<rparr>);
                   st4 = st3(r := cacheHeaderDataView X (st3 r) (datFile v))
               in disableByteView r (v2\<lparr> store := st4 \<rparr>))
         else (None, v2))"

text \<open>
  The loop of lines 117-153 from the running \<open>offset\<close> on. \<open>datFile\<close> and
  \<open>columnStats\<close> are the values destructured in line 114. The calls to \<open>CPUTask\<close>
  only hand control to the scheduler and are left out.
\<close>

fun importLoop ::
  "Externals \<Rightarrow> DatFile option \<Rightarrow> ColumnStats list \<Rightarrow> nat \<Rightarrow> DatSerializedHeader list \<Rightarrow> Viewer
     \<Rightarrow> error option \<times> Viewer" where
  "importLoop X df cstats off [] v = (None, v)"
| "importLoop X df cstats off (e # es) v =
     (case df of
        None \<Rightarrow> (Some TypeError, v)
      | Some f \<Rightarrow>
          (let headerLength = getHeaderLength X e (memsize_f f)
           in if name_s e = None then importLoop X df cstats (off + headerLength) es v
              else if \<not> validateImportedHeader X (candidate headerLength off e) cstats
              then (Some (Error ''The schema is invalid.''), v)
              else (case importEntry X e (candidate headerLength off e) v of
                      (Some err, v') \<Rightarrow> (Some err, v')
                    | (None, v') \<Rightarrow> importLoop X df cstats (off + headerLength) es v')))"

definition tryImportHeaders :: "Externals \<Rightarrow> DatSerializedHeader list \<Rightarrow> Viewer \<Rightarrow> error option \<times> Viewer" where
  "tryImportHeaders X serialized v = importLoop X (datFile v) (columnStats v) 0 serialized v"

section \<open>Loading a file\<close>

text \<open>
  \<open>analyze\<close>, \<open>calcRowNumLength\<close> and \<open>byteView\<close> are imported from sibling modules and
  are parameters, taken to return normally; \<open>byteView()\<close> yields a type descriptor.
\<close>

record Loaders =
  analyze :: "DatFile \<Rightarrow> ColumnStats list"
  calcRowNumLength :: "nat \<Rightarrow> nat \<Rightarrow> nat \<Rightarrow> int"
  byteViewType :: HeaderType

definition ROW_NUM_MIN_LENGTH :: nat where
  "ROW_NUM_MIN_LENGTH = 4"

text \<open>
  \<open>_loadDat\<close>, lines 54-70. \<open>settings.rowNumStart\<close> and \<open>settings.colNumStart\<close> are
  parameters; \<open>r\<close> is the reference of the header object that lines 61-66 create.
  The fields are assigned in the order of the source, so an exception of
  \<open>stateColumns\<close> in line 58 leaves the new statistics and file in place and the
  columns, the sorting and the headers as they were.
\<close>

definition private_loadDat ::
  "Loaders \<Rightarrow> nat \<Rightarrow> nat \<Rightarrow> href \<Rightarrow> DatFile \<Rightarrow> Viewer \<Rightarrow> error option \<times> Viewer" where
  "private_loadDat L rowNumStart colNumStart r parsed v =
     (let v1 = v\<lparr> columnStats := analyze L parsed,
                   rowNumberLength := calcRowNumLength L (rowCount parsed) rowNumStart ROW_NUM_MIN_LENGTH,
                   datFile := Some parsed \<rparr>
      in case stateColumns colNumStart (columnStats v1) of
           Inl e \<Rightarrow> (Some e, v1)
         | Inr cols \<Rightarrow>
             (let v2 = v1\<lparr> columns := cols, rowSorting := None \<rparr>
              in if rowLength parsed \<noteq> 0
                 then (None,
                       v2\<lparr> headers := [r],
                           store := (store v2)
                             (r := \<lparr> name = None, offset_h = 0, length_h = rowLength parsed,
                                     type_h = byteViewType L, cachedView = None \<rparr>) \<rparr>)
                 else (None, v2\<lparr> headers := [] \<rparr>)))"

text \<open>
  \<open>loadDat\<close>, lines 39-52. \<open>serialized\<close> is \<open>overrideHeaders || parsed.meta.headers\<close>.
  An exception of \<open>_loadDat\<close> is shown and raised again; one of the import is
  shown and dropped. \<open>window.alert\<close> is left out.
\<close>

definition loadDat ::
  "Loaders \<Rightarrow> Externals \<Rightarrow> nat \<Rightarrow> nat \<Rightarrow> href \<Rightarrow> DatSerializedHeader list \<Rightarrow> DatFile \<Rightarrow> Viewer
     \<Rightarrow> error option \<times> Viewer" where
  "loadDat L X rowNumStart colNumStart r serialized parsed v =
     (case private_loadDat L rowNumStart colNumStart r parsed v of
        (Some e, v1) \<Rightarrow> (Some e, v1)
      | (None, v1) \<Rightarrow> (None, snd (tryImportHeaders X serialized v1)))"

section \<open>Collecting the data\<close>

text \<open>
  \<open>row.unknown === 0\<close>: reading a property of \<open>undefined\<close> or \<open>null\<close> raises; a value
  that has no such property gives \<open>undefined\<close>, which is not \<open>0\<close>.
\<close>

fun unknownIsZero :: "jsval \<Rightarrow> error + bool" where
  "unknownIsZero Undefined = Inl TypeError"
| "unknownIsZero Null = Inl TypeError"
| "unknownIsZero (KeyObj r u) = Inr (u = 0)"
| "unknownIsZero _ = Inr False"

text \<open>\<open>entry.rid\<close>, under the same rules.\<close>

fun getRid :: "jsval \<Rightarrow> error + jsval" where
  "getRid Undefined = Inl TypeError"
| "getRid Null = Inl TypeError"
| "getRid (KeyObj r u) = Inr (Num r)"
| "getRid _ = Inr Undefined"

fun truthy :: "jsval \<Rightarrow> bool" where
  "truthy Undefined = False"
| "truthy Null = False"
| "truthy (Bool b) = b"
| "truthy (Num n) = (n \<noteq> 0)"
| "truthy (Str s) = (s \<noteq> [])"
| "truthy _ = True"

text \<open>
  \<open>Array.prototype.every\<close> and \<open>map\<close> with a callback that may raise: the elements
  are visited in order, \<open>every\<close> stops at the first \<open>false\<close>.
\<close>

fun every_e :: "('a \<Rightarrow> error + bool) \<Rightarrow> 'a list \<Rightarrow> error + bool" where
  "every_e p [] = Inr True"
| "every_e p (x # xs) =
     (case p x of Inl e \<Rightarrow> Inl e | Inr b \<Rightarrow> (if b then every_e p xs else Inr False))"

fun map_e :: "('a \<Rightarrow> error + 'b) \<Rightarrow> 'a list \<Rightarrow> error + 'b list" where
  "map_e f [] = Inr []"
| "map_e f (x # xs) =
     (case f x of
        Inl e \<Rightarrow> Inl e
      | Inr y \<Rightarrow> (case map_e f xs of Inl e \<Rightarrow> Inl e | Inr ys \<Rightarrow> Inr (y # ys)))"

text \<open>Line 192, \<open>row == null || row.unknown === 0\<close>, and line 195, \<open>row && row.rid\<close>.\<close>

definition rowCheck :: "jsval \<Rightarrow> error + bool" where
  "rowCheck row = (if row = Null \<or> row = Undefined then Inr True else unknownIsZero row)"

definition rowRid :: "jsval \<Rightarrow> error + jsval" where
  "rowRid row = (if truthy row then getRid row else Inr row)"

text \<open>
  Lines 198 and 201 for one row of an array-typed key: \<open>row.every\<close> and \<open>row.map\<close>
  exist on arrays only.
\<close>

fun rowCheckArr :: "jsval \<Rightarrow> error + bool" where
  "rowCheckArr (Arr entries) = every_e unknownIsZero entries"
| "rowCheckArr _ = Inl TypeError"

fun rowRidArr :: "jsval \<Rightarrow> error + jsval" where
  "rowRidArr (Arr entries) =
     (case map_e getRid entries of Inl e \<Rightarrow> Inl e | Inr rs \<Rightarrow> Inr (Arr rs))"
| "rowRidArr _ = Inl TypeError"

text \<open>
  The function of lines 186-206 that computes the \<open>data\<close> of one column. Line 187,
  \<open>header.cachedView?.entriesRaw || readColumn(header, this.datFile!)\<close>, is
  \<open>entriesOf\<close>: an array is truthy, also when it is empty.
\<close>

definition entriesOf :: "Externals \<Rightarrow> DatFile option \<Rightarrow> Header \<Rightarrow> jsval list" where
  "entriesOf X df h = (case cachedView h of Some raw \<Rightarrow> raw | None \<Rightarrow> readColumn X h df)"

definition columnData :: "Externals \<Rightarrow> DatFile option \<Rightarrow> Header \<Rightarrow> error + jsval list" where
  "columnData X df h =
     (let data = entriesOf X df h
      in if key (type_h h) = Some True
         then (if ref (type_h h) \<noteq> Some True
               then (case every_e rowCheck data of
                       Inl e \<Rightarrow> Inl e
                     | Inr ok \<Rightarrow> if \<not> ok then Inl (Error ''never'') else map_e rowRid data)
               else (case every_e rowCheckArr data of
                       Inl e \<Rightarrow> Inl e
                     | Inr ok \<Rightarrow> if \<not> ok then Inl (Error ''never'') else map_e rowRidArr data))
         else Inr data)"

text \<open>
  Line 185: \<open>header.name || `Unknown${idx + 1}`\<close>. The empty string is falsy, as
  \<open>null\<close> is.
\<close>

definition columnName :: "Header \<Rightarrow> nat \<Rightarrow> string" where
  "columnName h idx =
     (case name h of
        None \<Rightarrow> ''Unknown'' @ String_of (idx + 1)
      | Some n \<Rightarrow> if n = [] then ''Unknown'' @ String_of (idx + 1) else n)"

text \<open>
  The \<open>map\<close> of lines 184-207 over the filtered headers, from index \<open>idx\<close> on. The
  first column whose data raises ends the whole call.
\<close>

fun collectColumns :: "Externals \<Rightarrow> DatFile option \<Rightarrow> nat \<Rightarrow> Header list \<Rightarrow> error + (string \<times> jsval list) list" where
  "collectColumns X df idx [] = Inr []"
| "collectColumns X df idx (h # hs) =
     (case columnData X df h of
        Inl e \<Rightarrow> Inl e
      | Inr d \<Rightarrow>
          (case collectColumns X df (Suc idx) hs of
             Inl e \<Rightarrow> Inl e
           | Inr cs \<Rightarrow> Inr ((columnName h idx, d) # cs)))"

text \<open>
  A row object is the list of its properties. \<open>Object.fromEntries\<close> defines the
  properties one after the other; defining a name again replaces its value.
  \<open>col.data[idx]\<close> past the end of the data is \<open>undefined\<close>.
\<close>

type_synonym rowobj = "(string \<times> jsval) list"

definition fromEntries :: "(string \<times> jsval) list \<Rightarrow> rowobj" where
  "fromEntries es = foldl (\<lambda>obj (k, x). AList.update k x obj) [] es"

definition at :: "jsval list \<Rightarrow> nat \<Rightarrow> jsval" where
  "at d idx = (if idx < length d then d ! idx else Undefined)"

definition ridColumn :: "nat \<Rightarrow> string \<times> jsval list" where
  "ridColumn n = (''_rid'', map (\<lambda>idx. Num (int idx)) [0 ..< n])"

definition rowsOf :: "nat \<Rightarrow> (string \<times> jsval list) list \<Rightarrow> rowobj list" where
  "rowsOf n cols = map (\<lambda>idx. fromEntries (map (\<lambda>col. (fst col, at (snd col) idx)) cols)) [0 ..< n]"

text \<open>
  \<open>collectData\<close>, lines 181-219. \<open>materializableHeaders\<close> is the \<open>filter\<close> of line
  183 over the header objects. \<open>this.datFile!.rowCount\<close> raises when no file is
  loaded. The order in which a JavaScript object enumerates its properties is not
  modelled; the statements below speak of the set of keys, of their number and
  of the value under a key.
\<close>

definition materializableHeaders :: "Viewer \<Rightarrow> Header list" where
  "materializableHeaders v = filter (\<lambda>h. materializable (type_h h)) (map (store v) (headers v))"

definition collectData :: "Externals \<Rightarrow> Viewer \<Rightarrow> error + rowobj list" where
  "collectData X v =
     (case collectColumns X (datFile v) 0 (materializableHeaders v) of
        Inl e \<Rightarrow> Inl e
      | Inr cols \<Rightarrow>
          (case datFile v of
             None \<Rightarrow> Inl TypeError
           | Some f \<Rightarrow> Inr (rowsOf (rowCount f) (ridColumn (rowCount f) # cols))))"

section \<open>Predicates of the statements\<close>

text \<open>
  The invariant of the statistics: a construct flagged at offset \<open>i\<close> occupies
  \<open>memsize\<close> columns (\<open>2 \<times> memsize\<close> for an array) from \<open>i\<close> on, all of them inside
  the array.
\<close>

definition constructsFit :: "ColumnStats list \<Rightarrow> bool" where
  "constructsFit cs \<longleftrightarrow>
     (\<forall>i<length cs.
        (refString (cs ! i) \<longrightarrow> i + memsize (cs ! i) \<le> length cs) \<and>
        (refArray (cs ! i) \<longrightarrow> i + memsize (cs ! i) * 2 \<le> length cs) \<and>
        (nullableMemsize (cs ! i) \<longrightarrow> i + memsize (cs ! i) \<le> length cs))"

text \<open>
  \<open>grows cols cols'\<close>: same length, same offsets, and no flag that is set in \<open>cols\<close>
  is cleared in \<open>cols'\<close>.
\<close>

definition grows :: "StateColumn list \<Rightarrow> StateColumn list \<Rightarrow> bool" where
  "grows cols cols' \<longleftrightarrow>
     length cols' = length cols \<and>
     (\<forall>j<length cols.
        offset (cols' ! j) = offset (cols ! j) \<and>
        (string (stats (cols ! j)) \<longrightarrow> string (stats (cols' ! j))) \<and>
        (array (stats (cols ! j)) \<longrightarrow> array (stats (cols' ! j))) \<and>
        (nullable (stats (cols ! j)) \<longrightarrow> nullable (stats (cols' ! j))))"

text \<open>
  The names that \<open>collectData\<close> gives to the columns of the headers \<open>hs\<close>, the first
  of which has index \<open>idx\<close>.
\<close>

fun columnNames :: "nat \<Rightarrow> Header list \<Rightarrow> string list" where
  "columnNames idx [] = []"
| "columnNames idx (h # hs) = columnName h idx # columnNames (Suc idx) hs"

text \<open>
  The decoded entries of a foreign key as line 191 types them, an object
  \<open>{rid, unknown}\<close> or \<open>null\<close>, and as line 197 types them for an array-typed key, an
  array of such objects.
\<close>

fun isKey :: "jsval \<Rightarrow> bool" where
  "isKey (KeyObj r u) = True"
| "isKey _ = False"

fun isKeyOrNull :: "jsval \<Rightarrow> bool" where
  "isKeyOrNull (KeyObj r u) = True"
| "isKeyOrNull Null = True"
| "isKeyOrNull _ = False"

fun isKeyArray :: "jsval \<Rightarrow> bool" where
  "isKeyArray (Arr entries) = list_all isKey entries"
| "isKeyArray _ = False"

definition wellTypedKeys :: "HeaderType \<Rightarrow> jsval list \<Rightarrow> bool" where
  "wellTypedKeys t data =
     (if ref t = Some True then list_all isKeyArray data else list_all isKeyOrNull data)"

text \<open>
  The \<open>unknown\<close> components of a decoded entry (of its sub-entries, for an array),
  and the entry with every key object replaced by its \<open>rid\<close>.
\<close>

fun unknowns :: "jsval \<Rightarrow> int list" where
  "unknowns (KeyObj r u) = [u]"
| "unknowns (Arr entries) = concat (map unknowns entries)"
| "unknowns _ = []"

fun ridOnly :: "jsval \<Rightarrow> jsval" where
  "ridOnly (KeyObj r u) = Num r"
| "ridOnly (Arr entries) = Arr (map ridOnly entries)"
| "ridOnly x = x"

definition allUnknownZero :: "jsval list \<Rightarrow> bool" where
  "allUnknownZero data = list_all (\<lambda>row. list_all (\<lambda>u. u = 0) (unknowns row)) data"

text \<open>
  \<open>rawRun fresh cols i off n\<close>: the \<open>n\<close> columns of \<open>cols\<close> from position \<open>i\<close> on are the
  byte columns \<open>off, ..., off + n - 1\<close>, with the statistics overlay that
  \<open>stateColumns\<close> builds for them (\<open>fresh\<close>). This is what a header made from a
  contiguous selection of byte columns covers.
\<close>

definition rawRun :: "StateColumn list \<Rightarrow> StateColumn list \<Rightarrow> nat \<Rightarrow> nat \<Rightarrow> nat \<Rightarrow> bool" where
  "rawRun fresh cols i off n \<longleftrightarrow>
     (\<forall>k<n. i + k < length cols \<and> off + k < length fresh \<and>
        offset (cols ! (i + k)) = off + k \<and>
        stats (cols ! (i + k)) = stats (fresh ! (off + k)))"

section \<open>Sample data\<close>

text \<open>
  \<open>exExternals\<close> is one instance of the external functions: a header
  is valid when it lies inside the row and a string starts at a column flagged
  \<open>refString\<close>; selecting marks the columns of the header's byte range; the header
  created from a selection starts at the first selected column, has one byte per
  selected column and is appended to the header list under a new reference.
\<close>

definition noType :: HeaderType where
  "noType = \<lparr> boolean = False, decimal = False, integer = False, key = None, string_t = False,
               ref = None, byteView = None \<rparr>"

definition exExternals :: Externals where
  "exExternals =
     \<lparr> getHeaderLength = (\<lambda>e m. if integer (type_s e) then 4 else if boolean (type_s e) then 1 else m),
       validateImportedHeader =
         (\<lambda>h cs. offset_h h + length_h h \<le> length cs \<and>
                  (string_t (type_h h) \<longrightarrow> refString (cs ! offset_h h))),
       selectColsByHeader =
         (\<lambda>h. map (\<lambda>c. if offset_h h \<le> offset c \<and> offset c < offset_h h + length_h h
                         then c\<lparr> selected := True \<rparr> else c)),
       createHeaderFromSelected =
         (\<lambda>cols hs st.
            (length hs, hs @ [length hs],
             st(length hs :=
                  \<lparr> name = None,
                    offset_h = (case filter selected cols of [] \<Rightarrow> 0 | c # cs \<Rightarrow> offset c),
                    length_h = length (filter selected cols),
                    type_h = noType\<lparr> byteView := Some False \<rparr>,
                    cachedView = None \<rparr>))),
       clearColumnSelection = map (\<lambda>c. c\<lparr> selected := False \<rparr>),
       cacheHeaderDataView = (\<lambda>h df. h),
       readColumn = (\<lambda>h df. []) \<rparr>"

text \<open>
  Headers with cached entries, and a viewer that holds the headers \<open>hs\<close> of a file
  of \<open>n\<close> rows.
\<close>

definition exHeader :: "string option \<Rightarrow> HeaderType \<Rightarrow> jsval list \<Rightarrow> Header" where
  "exHeader n t raw = \<lparr> name = n, offset_h = 0, length_h = 4, type_h = t, cachedView = Some raw \<rparr>"

definition exViewer :: "Header list \<Rightarrow> nat \<Rightarrow> Viewer" where
  "exViewer hs n =
     \<lparr> headers = [0 ..< length hs],
       columns = [],
       datFile = Some \<lparr> rowCount = n, rowLength = 8, memsize_f = 4 \<rparr>,
       columnStats = [],
       rowNumberLength = 4,
       editHeader = None,
       rowSorting = None,
       store = (\<lambda>r. if r < length hs then hs ! r else exHeader None noType []) \<rparr>"

text \<open>
  Header lists: two named columns around a byte view, the second name empty; two
  columns of the same name; two foreign keys, the second array-typed; a foreign
  key whose second entry has \<open>unknown = 1\<close>.
\<close>

definition exPlain :: "Header list" where
  "exPlain =
     [exHeader (Some ''id'') (noType\<lparr> integer := True \<rparr>) [Num 10, Num 20],
      exHeader None (noType\<lparr> byteView := Some False \<rparr>) [],
      exHeader (Some []) (noType\<lparr> string_t := True \<rparr>) [Str ''x'', Str ''y'']]"

definition exDup :: "Header list" where
  "exDup =
     [exHeader (Some ''a'') (noType\<lparr> integer := True \<rparr>) [Num 1],
      exHeader (Some ''a'') (noType\<lparr> integer := True \<rparr>) [Num 2]]"

definition exKeys :: "Header list" where
  "exKeys =
     [exHeader (Some ''parent'') (noType\<lparr> key := Some True \<rparr>) [KeyObj 5 0, Null],
      exHeader (Some ''tags'') (noType\<lparr> key := Some True, ref := Some True \<rparr>)
        [Arr [KeyObj 1 0, KeyObj 2 0], Arr []]]"

definition exBadKey :: "Header list" where
  "exBadKey =
     [exHeader (Some ''id'') (noType\<lparr> integer := True \<rparr>) [Num 10, Num 20],
      exHeader (Some ''parent'') (noType\<lparr> key := Some True \<rparr>) [KeyObj 5 0, KeyObj 6 1]]"

text \<open>Statistics of a four-byte row: a nullable string reference, then an array.\<close>

definition exStats :: "ColumnStats list" where
  "exStats =
     [\<lparr> b00 = False, bMax = 255, refString = True, refArray = False, nullableMemsize = True, memsize = 2 \<rparr>,
      \<lparr> b00 = True, bMax = 10, refString = False, refArray = False, nullableMemsize = False, memsize = 2 \<rparr>,
      \<lparr> b00 = True, bMax = 0, refString = False, refArray = True, nullableMemsize = False, memsize = 1 \<rparr>,
      \<lparr> b00 = True, bMax = 7, refString = False, refArray = False, nullableMemsize = False, memsize = 1 \<rparr>]"

text \<open>
  The columns that \<open>_loadDat\<close> builds for these statistics (line 58, with
  \<open>colNumStart = 1\<close>), and a viewer that holds them together with one header object
  of the given offset and length.
\<close>

definition exColumns :: "StateColumn list" where
  "exColumns = (case stateColumns 1 exStats of Inr cols \<Rightarrow> cols | Inl e \<Rightarrow> [])"

definition exToggle :: "nat \<Rightarrow> nat \<Rightarrow> Viewer" where
  "exToggle off n =
     \<lparr> headers = [0],
       columns = exColumns,
       datFile = Some \<lparr> rowCount = 2, rowLength = 4, memsize_f = 2 \<rparr>,
       columnStats = exStats,
       rowNumberLength = 4,
       editHeader = None,
       rowSorting = None,
       store = (\<lambda>r. \<lparr> name = Some ''s'', offset_h = off, length_h = n,
                        type_h = noType\<lparr> string_t := True, byteView := Some False \<rparr>,
                        cachedView = None \<rparr>) \<rparr>"

text \<open>
  A loaded viewer for a row of eight plain bytes, and a schema whose second entry
  declares a string where no string reference was observed.
\<close>

definition exPlainStats :: "ColumnStats list" where
  "exPlainStats =
     replicate 8 \<lparr> b00 = True, bMax = 9, refString = False, refArray = False,
                    nullableMemsize = False, memsize = 4 \<rparr>"

definition exLoaded :: Viewer where
  "exLoaded =
     \<lparr> headers = [],
       columns = initColumns 0 exPlainStats,
       datFile = Some \<lparr> rowCount = 1, rowLength = 8, memsize_f = 4 \<rparr>,
       columnStats = exPlainStats,
       rowNumberLength = 4,
       editHeader = None,
       rowSorting = None,
       store = (\<lambda>r. exHeader None noType []) \<rparr>"

definition exSchema :: "DatSerializedHeader list" where
  "exSchema =
     [\<lparr> name_s = Some ''a'', type_s = noType\<lparr> integer := True \<rparr> \<rparr>,
      \<lparr> name_s = Some ''s'', type_s = noType\<lparr> string_t := True \<rparr> \<rparr>,
      \<lparr> name_s = Some ''b'', type_s = noType\<lparr> integer := True \<rparr> \<rparr>]"

section \<open>Properties of \<open>stateColumns\<close>\<close>

lemma markRun_Inr:
  "markRun upd i n cols = Inr cols' \<Longrightarrow>
     length cols' = length cols \<and>
     (\<forall>j<length cols. cols' ! j =
        (if i \<le> j \<and> j < i + n then (cols ! j)\<lparr> stats := upd (stats (cols ! j)) \<rparr> else cols ! j))"
proof (induction n arbitrary: i cols)
  case 0
  then show ?case by auto
next
  case (Suc n)
  from Suc.prems have lt: "i < length cols"
    by (simp split: if_splits)
  let ?c = "cols[i := (cols ! i)\<lparr> stats := upd (stats (cols ! i)) \<rparr>]"
  from Suc.prems lt have run: "markRun upd (Suc i) n ?c = Inr cols'"
    by simp
  from Suc.IH [OF run] have len: "length cols' = length cols"
    and nth: "\<And>j. j < length cols \<Longrightarrow> cols' ! j =
        (if Suc i \<le> j \<and> j < Suc i + n then (?c ! j)\<lparr> stats := upd (stats (?c ! j)) \<rparr> else ?c ! j)"
    by simp_all
  show ?case
  proof (intro conjI allI impI)
    show "length cols' = length cols" by (rule len)
  next
    fix j assume j: "j < length cols"
    show "cols' ! j = (if i \<le> j \<and> j < i + Suc n then (cols ! j)\<lparr> stats := upd (stats (cols ! j)) \<rparr> else cols ! j)"
    proof (cases "j = i")
      case True
      with nth [OF j] lt show ?thesis by simp
    next
      case False
      with nth [OF j] show ?thesis by auto
    qed
  qed
qed

lemma markRun_fits: "i + n \<le> length cols \<Longrightarrow> \<exists>cols'. markRun upd i n cols = Inr cols'"
  by (induction n arbitrary: i cols) auto

lemma markRun_Inr_fits: "markRun upd i n cols = Inr cols' \<Longrightarrow> 0 < n \<Longrightarrow> i + n \<le> length cols"
proof (induction n arbitrary: i cols)
  case 0
  then show ?case by simp
next
  case (Suc n)
  from Suc.prems have lt: "i < length cols"
    by (simp split: if_splits)
  show ?case
  proof (cases n)
    case 0
    with lt show ?thesis by simp
  next
    case (Suc m)
    from Suc.prems lt
    have "markRun upd (Suc i) n (cols[i := (cols ! i)\<lparr> stats := upd (stats (cols ! i)) \<rparr>]) = Inr cols'"
      by simp
    from Suc.IH [OF this] Suc show ?thesis by simp
  qed
qed

lemma grows_refl: "grows cols cols"
  by (simp add: grows_def)

lemma grows_trans: "grows a b \<Longrightarrow> grows b c \<Longrightarrow> grows a c"
  by (simp add: grows_def)

lemma markIf_string:
  assumes "markIf flag (\<lambda>s. s\<lparr> string := True \<rparr>) i n cols = Inr cols'"
  shows "grows cols cols'"
    and "flag \<Longrightarrow> k < n \<Longrightarrow> string (stats (cols' ! (i + k)))"
proof -
  show "grows cols cols'"
    using assms markRun_Inr [of "\<lambda>s. s\<lparr> string := True \<rparr>" i n cols cols']
    by (auto simp: markIf_def grows_def split: if_splits)
next
  assume f: flag and k: "k < n"
  from assms f have run: "markRun (\<lambda>s. s\<lparr> string := True \<rparr>) i n cols = Inr cols'"
    by (simp add: markIf_def)
  from markRun_Inr_fits [OF run] k have "i + k < length cols" by simp
  with markRun_Inr [OF run] k show "string (stats (cols' ! (i + k)))" by simp
qed

lemma markIf_array:
  assumes "markIf flag (\<lambda>s. s\<lparr> array := True \<rparr>) i n cols = Inr cols'"
  shows "grows cols cols'"
    and "flag \<Longrightarrow> k < n \<Longrightarrow> array (stats (cols' ! (i + k)))"
proof -
  show "grows cols cols'"
    using assms markRun_Inr [of "\<lambda>s. s\<lparr> array := True \<rparr>" i n cols cols']
    by (auto simp: markIf_def grows_def split: if_splits)
next
  assume f: flag and k: "k < n"
  from assms f have run: "markRun (\<lambda>s. s\<lparr> array := True \<rparr>) i n cols = Inr cols'"
    by (simp add: markIf_def)
  from markRun_Inr_fits [OF run] k have "i + k < length cols" by simp
  with markRun_Inr [OF run] k show "array (stats (cols' ! (i + k)))" by simp
qed

lemma markIf_nullable:
  assumes "markIf flag (\<lambda>s. s\<lparr> nullable := True \<rparr>) i n cols = Inr cols'"
  shows "grows cols cols'"
    and "flag \<Longrightarrow> k < n \<Longrightarrow> nullable (stats (cols' ! (i + k)))"
proof -
  show "grows cols cols'"
    using assms markRun_Inr [of "\<lambda>s. s\<lparr> nullable := True \<rparr>" i n cols cols']
    by (auto simp: markIf_def grows_def split: if_splits)
next
  assume f: flag and k: "k < n"
  from assms f have run: "markRun (\<lambda>s. s\<lparr> nullable := True \<rparr>) i n cols = Inr cols'"
    by (simp add: markIf_def)
  from markRun_Inr_fits [OF run] k have "i + k < length cols" by simp
  with markRun_Inr [OF run] k show "nullable (stats (cols' ! (i + k)))" by simp
qed

lemma markIf_Inr_fits:
  "markIf flag upd i n cols = Inr cols' \<Longrightarrow> flag \<Longrightarrow> k < n \<Longrightarrow> i + k < length cols"
  using markRun_Inr_fits [of upd i n cols cols'] by (simp add: markIf_def)

lemma propagateStat_Inr:
  assumes "propagateStat idx stat cols = Inr cols'"
  shows "grows cols cols'"
    and "refString stat \<Longrightarrow> k < memsize stat \<Longrightarrow> string (stats (cols' ! (idx + k)))"
    and "refArray stat \<Longrightarrow> k < memsize stat * 2 \<Longrightarrow> array (stats (cols' ! (idx + k)))"
    and "nullableMemsize stat \<Longrightarrow> k < memsize stat \<Longrightarrow> nullable (stats (cols' ! (idx + k)))"
proof -
  from assms obtain c1 c2 where
    s1: "markIf (refString stat) (\<lambda>s. s\<lparr> string := True \<rparr>) idx (memsize stat) cols = Inr c1" and
    s2: "markIf (refArray stat) (\<lambda>s. s\<lparr> array := True \<rparr>) idx (memsize stat * 2) c1 = Inr c2" and
    s3: "markIf (nullableMemsize stat) (\<lambda>s. s\<lparr> nullable := True \<rparr>) idx (memsize stat) c2 = Inr cols'"
    by (auto simp: propagateStat_def split: sum.splits)
  note g1 = markIf_string(1) [OF s1] and g2 = markIf_array(1) [OF s2] and g3 = markIf_nullable(1) [OF s3]
  show "grows cols cols'"
    by (rule grows_trans [OF grows_trans [OF g1 g2] g3])
  show "string (stats (cols' ! (idx + k)))" if "refString stat" "k < memsize stat"
  proof -
    from markIf_Inr_fits [OF s1 that] have lt: "idx + k < length cols" .
    from markIf_string(2) [OF s1 that] have "string (stats (c1 ! (idx + k)))" .
    with lt g1 g2 g3 show ?thesis by (simp add: grows_def)
  qed
  show "array (stats (cols' ! (idx + k)))" if "refArray stat" "k < memsize stat * 2"
  proof -
    from markIf_Inr_fits [OF s2 that] have lt: "idx + k < length c1" .
    from markIf_array(2) [OF s2 that] have "array (stats (c2 ! (idx + k)))" .
    with lt g1 g2 g3 show ?thesis by (simp add: grows_def)
  qed
  show "nullable (stats (cols' ! (idx + k)))" if "nullableMemsize stat" "k < memsize stat"
    by (rule markIf_nullable(2) [OF s3 that])
qed

lemma propagate_Inr:
  assumes "propagate idx rest cols = Inr cols'"
  shows "grows cols cols' \<and>
     (\<forall>i<length rest.
        (refString (rest ! i) \<longrightarrow> (\<forall>k<memsize (rest ! i). string (stats (cols' ! (idx + i + k))))) \<and>
        (refArray (rest ! i) \<longrightarrow> (\<forall>k<memsize (rest ! i) * 2. array (stats (cols' ! (idx + i + k))))) \<and>
        (nullableMemsize (rest ! i) \<longrightarrow> (\<forall>k<memsize (rest ! i). nullable (stats (cols' ! (idx + i + k))))))"
  using assms
proof (induction rest arbitrary: idx cols)
  case Nil
  then show ?case by (simp add: grows_refl)
next
  case (Cons stat rest)
  from Cons.prems obtain c1 where
    s1: "propagateStat idx stat cols = Inr c1" and s2: "propagate (Suc idx) rest c1 = Inr cols'"
    by (auto split: sum.splits)
  note g1 = propagateStat_Inr(1) [OF s1]
  from Cons.IH [OF s2] have g2: "grows c1 cols'"
    and later: "\<And>i. i < length rest \<Longrightarrow>
        (refString (rest ! i) \<longrightarrow> (\<forall>k<memsize (rest ! i). string (stats (cols' ! (Suc idx + i + k))))) \<and>
        (refArray (rest ! i) \<longrightarrow> (\<forall>k<memsize (rest ! i) * 2. array (stats (cols' ! (Suc idx + i + k))))) \<and>
        (nullableMemsize (rest ! i) \<longrightarrow> (\<forall>k<memsize (rest ! i). nullable (stats (cols' ! (Suc idx + i + k)))))"
    by simp_all
  have first:
    "(refString stat \<longrightarrow> (\<forall>k<memsize stat. string (stats (cols' ! (idx + k))))) \<and>
     (refArray stat \<longrightarrow> (\<forall>k<memsize stat * 2. array (stats (cols' ! (idx + k))))) \<and>
     (nullableMemsize stat \<longrightarrow> (\<forall>k<memsize stat. nullable (stats (cols' ! (idx + k)))))"
  proof (intro conjI impI allI)
    fix k assume f: "refString stat" and k: "k < memsize stat"
    from s1 f k have "idx + k < length c1"
      using g1 markIf_Inr_fits [of "refString stat" _ idx "memsize stat" cols _ k]
      by (auto simp: propagateStat_def grows_def split: sum.splits)
    with propagateStat_Inr(2) [OF s1 f k] g2 show "string (stats (cols' ! (idx + k)))"
      by (simp add: grows_def)
  next
    fix k assume f: "refArray stat" and k: "k < memsize stat * 2"
    from s1 obtain c0 c2 where
      m1: "markIf (refString stat) (\<lambda>s. s\<lparr> string := True \<rparr>) idx (memsize stat) cols = Inr c0" and
      m2: "markIf (refArray stat) (\<lambda>s. s\<lparr> array := True \<rparr>) idx (memsize stat * 2) c0 = Inr c2"
      by (auto simp: propagateStat_def split: sum.splits)
    from markIf_Inr_fits [OF m2 f k] markIf_string(1) [OF m1] g1
    have "idx + k < length c1" by (simp add: grows_def)
    with propagateStat_Inr(3) [OF s1 f k] g2 show "array (stats (cols' ! (idx + k)))"
      by (simp add: grows_def)
  next
    fix k assume f: "nullableMemsize stat" and k: "k < memsize stat"
    from s1 obtain c0 c2 where
      m1: "markIf (refString stat) (\<lambda>s. s\<lparr> string := True \<rparr>) idx (memsize stat) cols = Inr c0" and
      m2: "markIf (refArray stat) (\<lambda>s. s\<lparr> array := True \<rparr>) idx (memsize stat * 2) c0 = Inr c2" and
      m3: "markIf (nullableMemsize stat) (\<lambda>s. s\<lparr> nullable := True \<rparr>) idx (memsize stat) c2 = Inr c1"
      by (auto simp: propagateStat_def split: sum.splits)
    from markIf_Inr_fits [OF m3 f k] markIf_nullable(1) [OF m3]
    have "idx + k < length c1" by (simp add: grows_def)
    with propagateStat_Inr(4) [OF s1 f k] g2 show "nullable (stats (cols' ! (idx + k)))"
      by (simp add: grows_def)
  qed
  show ?case
  proof (intro conjI allI impI)
    show "grows cols cols'" by (rule grows_trans [OF g1 g2])
  next
    fix i k assume "i < length (stat # rest)" "refString ((stat # rest) ! i)" "k < memsize ((stat # rest) ! i)"
    then show "string (stats (cols' ! (idx + i + k)))"
      using first later by (cases i) auto
  next
    fix i k assume "i < length (stat # rest)" "refArray ((stat # rest) ! i)" "k < memsize ((stat # rest) ! i) * 2"
    then show "array (stats (cols' ! (idx + i + k)))"
      using first later by (cases i) auto
  next
    fix i k assume "i < length (stat # rest)" "nullableMemsize ((stat # rest) ! i)" "k < memsize ((stat # rest) ! i)"
    then show "nullable (stats (cols' ! (idx + i + k)))"
      using first later by (cases i) auto
  qed
qed

lemma markIf_fits:
  "(flag \<longrightarrow> i + n \<le> length cols) \<Longrightarrow> \<exists>cols'. markIf flag upd i n cols = Inr cols'"
  by (simp add: markIf_def markRun_fits)

lemma markIf_length: "markIf flag upd i n cols = Inr cols' \<Longrightarrow> length cols' = length cols"
  using markRun_Inr [of upd i n cols cols'] by (simp add: markIf_def split: if_splits)

lemma propagateStat_fits:
  assumes "refString stat \<longrightarrow> idx + memsize stat \<le> length cols"
    and "refArray stat \<longrightarrow> idx + memsize stat * 2 \<le> length cols"
    and "nullableMemsize stat \<longrightarrow> idx + memsize stat \<le> length cols"
  shows "\<exists>cols'. propagateStat idx stat cols = Inr cols'"
proof -
  from markIf_fits [OF assms(1)] obtain c1 where
    m1: "markIf (refString stat) (\<lambda>s. s\<lparr> string := True \<rparr>) idx (memsize stat) cols = Inr c1"
    by blast
  from markIf_length [OF m1] assms(2)
  have "refArray stat \<longrightarrow> idx + memsize stat * 2 \<le> length c1" by simp
  from markIf_fits [OF this] obtain c2 where
    m2: "markIf (refArray stat) (\<lambda>s. s\<lparr> array := True \<rparr>) idx (memsize stat * 2) c1 = Inr c2"
    by blast
  from markIf_length [OF m2] markIf_length [OF m1] assms(3)
  have "nullableMemsize stat \<longrightarrow> idx + memsize stat \<le> length c2" by simp
  from markIf_fits [OF this] obtain c3 where
    m3: "markIf (nullableMemsize stat) (\<lambda>s. s\<lparr> nullable := True \<rparr>) idx (memsize stat) c2 = Inr c3"
    by blast
  from m1 m2 m3 show ?thesis by (simp add: propagateStat_def)
qed

lemma propagate_fits:
  assumes "\<forall>i<length rest.
        (refString (rest ! i) \<longrightarrow> idx + i + memsize (rest ! i) \<le> length cols) \<and>
        (refArray (rest ! i) \<longrightarrow> idx + i + memsize (rest ! i) * 2 \<le> length cols) \<and>
        (nullableMemsize (rest ! i) \<longrightarrow> idx + i + memsize (rest ! i) \<le> length cols)"
  shows "\<exists>cols'. propagate idx rest cols = Inr cols'"
  using assms
proof (induction rest arbitrary: idx cols)
  case Nil
  then show ?case by simp
next
  case (Cons stat rest)
  from Cons.prems [rule_format, of 0] obtain c1 where s1: "propagateStat idx stat cols = Inr c1"
    using propagateStat_fits [of stat idx cols] by auto
  from propagateStat_Inr(1) [OF s1] have len: "length c1 = length cols" by (simp add: grows_def)
  have "\<forall>i<length rest.
        (refString (rest ! i) \<longrightarrow> Suc idx + i + memsize (rest ! i) \<le> length c1) \<and>
        (refArray (rest ! i) \<longrightarrow> Suc idx + i + memsize (rest ! i) * 2 \<le> length c1) \<and>
        (nullableMemsize (rest ! i) \<longrightarrow> Suc idx + i + memsize (rest ! i) \<le> length c1)"
  proof (intro allI impI)
    fix i assume "i < length rest"
    with Cons.prems [rule_format, of "Suc i"] len
    show "(refString (rest ! i) \<longrightarrow> Suc idx + i + memsize (rest ! i) \<le> length c1) \<and>
        (refArray (rest ! i) \<longrightarrow> Suc idx + i + memsize (rest ! i) * 2 \<le> length c1) \<and>
        (nullableMemsize (rest ! i) \<longrightarrow> Suc idx + i + memsize (rest ! i) \<le> length c1)"
      by simp
  qed
  from Cons.IH [OF this] s1 show ?case by auto
qed

lemma length_initColumns: "length (initColumns cns cs) = length cs"
  by (simp add: initColumns_def)

lemma offset_initColumns: "j < length cs \<Longrightarrow> offset (initColumns cns cs ! j) = j"
  by (simp add: initColumns_def newColumn_def)

lemma stateColumns_fits: "constructsFit cs \<Longrightarrow> \<exists>cols. stateColumns cns cs = Inr cols"
  unfolding stateColumns_def
  by (rule propagate_fits) (simp add: constructsFit_def length_initColumns)

lemma stateColumns_Inr:
  assumes "stateColumns cns cs = Inr cols"
  shows "length cols = length cs"
    and "j < length cs \<Longrightarrow> offset (cols ! j) = j"
    and "i < length cs \<Longrightarrow> refString (cs ! i) \<Longrightarrow> k < memsize (cs ! i) \<Longrightarrow> string (stats (cols ! (i + k)))"
    and "i < length cs \<Longrightarrow> refArray (cs ! i) \<Longrightarrow> k < memsize (cs ! i) * 2 \<Longrightarrow> array (stats (cols ! (i + k)))"
    and "i < length cs \<Longrightarrow> nullableMemsize (cs ! i) \<Longrightarrow> k < memsize (cs ! i) \<Longrightarrow> nullable (stats (cols ! (i + k)))"
proof -
  from assms have p: "propagate 0 cs (initColumns cns cs) = Inr cols"
    by (simp add: stateColumns_def)
  note r = propagate_Inr [OF p]
  from r show "length cols = length cs"
    by (simp add: grows_def length_initColumns)
  from r show "offset (cols ! j) = j" if "j < length cs"
    using that by (simp add: grows_def length_initColumns offset_initColumns)
  from r show "string (stats (cols ! (i + k)))" if "i < length cs" "refString (cs ! i)" "k < memsize (cs ! i)"
    using that by simp
  from r show "array (stats (cols ! (i + k)))" if "i < length cs" "refArray (cs ! i)" "k < memsize (cs ! i) * 2"
    using that by simp
  from r show "nullable (stats (cols ! (i + k)))" if "i < length cs" "nullableMemsize (cs ! i)" "k < memsize (cs ! i)"
    using that by simp
qed

lemma propagate_Inr_fits:
  assumes "propagate idx rest cols = Inr cols'" and "idx + length rest \<le> length cols"
  shows "\<forall>i<length rest.
        (refString (rest ! i) \<longrightarrow> idx + i + memsize (rest ! i) \<le> length cols) \<and>
        (refArray (rest ! i) \<longrightarrow> idx + i + memsize (rest ! i) * 2 \<le> length cols) \<and>
        (nullableMemsize (rest ! i) \<longrightarrow> idx + i + memsize (rest ! i) \<le> length cols)"
  using assms
proof (induction rest arbitrary: idx cols)
  case Nil
  then show ?case by simp
next
  case (Cons stat rest)
  from Cons.prems obtain c1 where
    s1: "propagateStat idx stat cols = Inr c1" and s2: "propagate (Suc idx) rest c1 = Inr cols'"
    by (auto split: sum.splits)
  from s1 obtain c0 c2 where
    m1: "markIf (refString stat) (\<lambda>s. s\<lparr> string := True \<rparr>) idx (memsize stat) cols = Inr c0" and
    m2: "markIf (refArray stat) (\<lambda>s. s\<lparr> array := True \<rparr>) idx (memsize stat * 2) c0 = Inr c2" and
    m3: "markIf (nullableMemsize stat) (\<lambda>s. s\<lparr> nullable := True \<rparr>) idx (memsize stat) c2 = Inr c1"
    by (auto simp: propagateStat_def split: sum.splits)
  note l0 = markIf_length [OF m1] and l2 = markIf_length [OF m2] and l1 = markIf_length [OF m3]
  have fit: "flag \<Longrightarrow> markIf flag upd idx n c = Inr c' \<Longrightarrow> length c = length cols \<Longrightarrow> idx + n \<le> length cols"
    for flag upd n c c'
    using markRun_Inr_fits [of upd idx n c c'] Cons.prems(2) by (cases "n = 0") (auto simp: markIf_def)
  have first: "(refString stat \<longrightarrow> idx + memsize stat \<le> length cols) \<and>
        (refArray stat \<longrightarrow> idx + memsize stat * 2 \<le> length cols) \<and>
        (nullableMemsize stat \<longrightarrow> idx + memsize stat \<le> length cols)"
    using fit [OF _ m1] fit [OF _ m2] fit [OF _ m3] l0 l2 by simp
  from Cons.prems(2) l0 l1 l2 have "Suc idx + length rest \<le> length c1" by simp
  from Cons.IH [OF s2 this] l0 l1 l2
  have later: "\<And>i. i < length rest \<Longrightarrow>
        (refString (rest ! i) \<longrightarrow> Suc idx + i + memsize (rest ! i) \<le> length cols) \<and>
        (refArray (rest ! i) \<longrightarrow> Suc idx + i + memsize (rest ! i) * 2 \<le> length cols) \<and>
        (nullableMemsize (rest ! i) \<longrightarrow> Suc idx + i + memsize (rest ! i) \<le> length cols)"
    by simp
  show ?case
  proof (intro allI impI)
    fix i assume "i < length (stat # rest)"
    then show "(refString ((stat # rest) ! i) \<longrightarrow> idx + i + memsize ((stat # rest) ! i) \<le> length cols) \<and>
        (refArray ((stat # rest) ! i) \<longrightarrow> idx + i + memsize ((stat # rest) ! i) * 2 \<le> length cols) \<and>
        (nullableMemsize ((stat # rest) ! i) \<longrightarrow> idx + i + memsize ((stat # rest) ! i) \<le> length cols)"
      using first later by (cases i) auto
  qed
qed

lemma stateColumns_returns_iff: "(\<exists>cols. stateColumns cns cs = Inr cols) \<longleftrightarrow> constructsFit cs"
proof
  assume "\<exists>cols. stateColumns cns cs = Inr cols"
  then obtain cols where "propagate 0 cs (initColumns cns cs) = Inr cols"
    by (auto simp: stateColumns_def)
  from propagate_Inr_fits [OF this] show "constructsFit cs"
    by (simp add: constructsFit_def length_initColumns)
next
  assume "constructsFit cs"
  then show "\<exists>cols. stateColumns cns cs = Inr cols" by (rule stateColumns_fits)
qed

text \<open>
  Claim C7. On statistics that satisfy the invariant (each flagged construct lies
  inside the array), no access \<open>columns[idx + k]\<close> of the flag propagation is out
  of range: \<open>stateColumns\<close> returns, and returns one column per statistics entry.
  By \<open>stateColumns_returns_iff\<close> the invariant is also necessary.
\<close>

theorem stateColumns_in_range:
  "constructsFit cs \<Longrightarrow> \<exists>cols. stateColumns cns cs = Inr cols \<and> length cols = length cs"
  using stateColumns_fits [of cs cns] stateColumns_Inr(1) [of cns cs] by blast

lemma constructsFit_exStats: "constructsFit exStats"
  by (simp add: constructsFit_def exStats_def less_Suc_eq numeral_Bit0 numeral_Bit1 all_conj_distrib)

theorem stateColumns_in_range_witness:
  "constructsFit exStats \<and> (\<exists>cols. stateColumns 1 exStats = Inr cols \<and> length cols = length exStats)"
  using stateColumns_in_range [OF constructsFit_exStats, of 1] constructsFit_exStats
  by blast

text \<open>
  Claim C5. For column statistics as the data model has them, each flagged
  construct lying inside the array (\<open>constructsFit\<close>), \<open>stateColumns\<close> returns exactly
  one column per statistics entry; for each offset \<open>i\<close> flagged \<open>refString\<close> the
  \<open>string\<close> flag is set on the \<open>memsize\<close> columns from \<open>i\<close> on, for \<open>refArray\<close> the
  \<open>array\<close> flag on \<open>2 \<times> memsize\<close> columns, for \<open>nullableMemsize\<close> the \<open>nullable\<close> flag
  on \<open>memsize\<close> columns.
\<close>

theorem stateColumns_flags:
  assumes "constructsFit cs"
  shows "\<exists>cols. stateColumns cns cs = Inr cols \<and> length cols = length cs \<and>
     (\<forall>i<length cs.
        (refString (cs ! i) \<longrightarrow> (\<forall>k<memsize (cs ! i). string (stats (cols ! (i + k))))) \<and>
        (refArray (cs ! i) \<longrightarrow> (\<forall>k<memsize (cs ! i) * 2. array (stats (cols ! (i + k))))) \<and>
        (nullableMemsize (cs ! i) \<longrightarrow> (\<forall>k<memsize (cs ! i). nullable (stats (cols ! (i + k))))))"
proof -
  from stateColumns_fits [OF assms] obtain cols where r: "stateColumns cns cs = Inr cols"
    by blast
  show ?thesis
    using r stateColumns_Inr [OF r] by auto
qed

theorem stateColumns_flags_witness:
  "constructsFit exStats \<and>
   (\<exists>cols. stateColumns 1 exStats = Inr cols \<and> length cols = length exStats \<and>
      string (stats (cols ! 0)) \<and> string (stats (cols ! 1)) \<and>
      array (stats (cols ! 2)) \<and> array (stats (cols ! 3)) \<and>
      nullable (stats (cols ! 0)) \<and> nullable (stats (cols ! 1)))"
proof -
  from stateColumns_flags [OF constructsFit_exStats, of 1] obtain cols where
    r: "stateColumns 1 exStats = Inr cols" "length cols = length exStats" and
    f: "\<And>i. i < length exStats \<Longrightarrow>
        (refString (exStats ! i) \<longrightarrow> (\<forall>k<memsize (exStats ! i). string (stats (cols ! (i + k))))) \<and>
        (refArray (exStats ! i) \<longrightarrow> (\<forall>k<memsize (exStats ! i) * 2. array (stats (cols ! (i + k))))) \<and>
        (nullableMemsize (exStats ! i) \<longrightarrow> (\<forall>k<memsize (exStats ! i). nullable (stats (cols ! (i + k)))))"
    by blast
  from f [of 0] have s: "\<And>k. k < 2 \<Longrightarrow> string (stats (cols ! k))"
    and n: "\<And>k. k < 2 \<Longrightarrow> nullable (stats (cols ! k))"
    by (simp_all add: exStats_def)
  from f [of 2] have a: "\<And>k. k < 2 \<Longrightarrow> array (stats (cols ! (2 + k)))"
    by (simp add: exStats_def)
  from s [of 0] s [of 1] n [of 0] n [of 1] a [of 0] a [of 1] r constructsFit_exStats
  show ?thesis by simp
qed

section \<open>Properties of \<open>collectData\<close>\<close>

lemma foldl_update_distinct:
  "distinct (map fst (acc @ es)) \<Longrightarrow>
     foldl (\<lambda>obj (k, x). AList.update k x obj) acc es = acc @ es"
proof (induction es arbitrary: acc)
  case Nil
  then show ?case by simp
next
  case (Cons e es)
  obtain k x where e: "e = (k, x)" by (cases e)
  from Cons.prems e have notin: "k \<notin> fst ` set acc" by auto
  have upd: "AList.update k x acc = acc @ [(k, x)]"
    using notin by (induction acc) auto
  from Cons.prems e have "distinct (map fst ((acc @ [(k, x)]) @ es))" by simp
  from Cons.IH [OF this] e upd show ?case by simp
qed

lemma foldl_update_map_of:
  "map_of (foldl (\<lambda>obj (k, x). AList.update k x obj) acc es) = map_of acc ++ map_of (rev es)"
proof (induction es arbitrary: acc)
  case Nil
  then show ?case by simp
next
  case (Cons e es)
  obtain k x where e: "e = (k, x)" by (cases e)
  have "map_of (AList.update k x acc) ++ map_of (rev es) = map_of acc ++ map_of (rev es @ [(k, x)])"
    by (simp add: update_conv' map_add_upd_left fun_eq_iff map_add_def split: option.splits)
  with Cons.IH [of "AList.update k x acc"] e show ?case by simp
qed

lemma foldl_update_keys:
  "set (map fst (foldl (\<lambda>obj (k, x). AList.update k x obj) acc es)) = set (map fst acc) \<union> set (map fst es)"
proof (induction es arbitrary: acc)
  case Nil
  then show ?case by simp
next
  case (Cons e es)
  obtain k x where e: "e = (k, x)" by (cases e)
  from Cons.IH [of "AList.update k x acc"] e show ?case
    by (auto simp: dom_update)
qed

lemma foldl_update_keys_distinct:
  "distinct (map fst acc) \<Longrightarrow> distinct (map fst (foldl (\<lambda>obj (k, x). AList.update k x obj) acc es))"
proof (induction es arbitrary: acc)
  case Nil
  then show ?case by simp
next
  case (Cons e es)
  obtain k x where e: "e = (k, x)" by (cases e)
  from Cons.prems have "distinct (map fst (AList.update k x acc))" by (rule distinct_update)
  from Cons.IH [OF this] e show ?case by simp
qed

lemma fromEntries_distinct: "distinct (map fst es) \<Longrightarrow> fromEntries es = es"
  using foldl_update_distinct [of "[]" es] by (simp add: fromEntries_def)

lemma map_of_fromEntries: "map_of (fromEntries es) = map_of (rev es)"
  by (simp add: fromEntries_def foldl_update_map_of)

lemma keys_fromEntries: "set (map fst (fromEntries es)) = set (map fst es)"
  using foldl_update_keys [of "[]" es] by (simp add: fromEntries_def)

lemma distinct_fromEntries: "distinct (map fst (fromEntries es))"
  using foldl_update_keys_distinct [of "[]" es] by (simp add: fromEntries_def)

lemma length_fromEntries: "length (fromEntries es) = card (set (map fst es))"
proof -
  have "length (fromEntries es) = length (map fst (fromEntries es))" by simp
  also have "\<dots> = card (set (map fst (fromEntries es)))"
    by (rule distinct_card [symmetric]) (rule distinct_fromEntries)
  finally show ?thesis by (simp only: keys_fromEntries)
qed

text \<open>The value under a key is that of the last entry with this key.\<close>

lemma map_of_rev_last:
  assumes "i < length es" and "\<forall>j. i < j \<and> j < length es \<longrightarrow> fst (es ! j) \<noteq> fst (es ! i)"
  shows "map_of (rev es) (fst (es ! i)) = Some (snd (es ! i))"
  using assms
proof (induction es arbitrary: i rule: rev_induct)
  case Nil
  then show ?case by simp
next
  case (snoc e es)
  show ?case
  proof (cases "i = length es")
    case True
    then show ?thesis by (cases e) simp
  next
    case False
    with snoc.prems(1) have i: "i < length es" by simp
    from snoc.prems(2) [rule_format, of "length es"] i
    have ne: "fst e \<noteq> fst (es ! i)" by (simp add: nth_append)
    have "\<forall>j. i < j \<and> j < length es \<longrightarrow> fst (es ! j) \<noteq> fst (es ! i)"
    proof (intro allI impI)
      fix j assume j: "i < j \<and> j < length es"
      with snoc.prems(2) [rule_format, of j] i show "fst (es ! j) \<noteq> fst (es ! i)"
        by (simp add: nth_append)
    qed
    from snoc.IH [OF i this] ne i show ?thesis
      by (cases e) (simp add: nth_append)
  qed
qed

lemma length_rowsOf: "length (rowsOf n cols) = n"
  by (simp add: rowsOf_def)

lemma nth_rowsOf:
  "k < n \<Longrightarrow> rowsOf n cols ! k = fromEntries (map (\<lambda>col. (fst col, at (snd col) k)) cols)"
  by (simp add: rowsOf_def)

lemma at_ridColumn: "k < n \<Longrightarrow> at (snd (ridColumn n)) k = Num (int k)"
  by (simp add: ridColumn_def at_def)

lemma fst_ridColumn: "fst (ridColumn n) = ''_rid''"
  by (simp add: ridColumn_def)

lemma every_e_total: "(\<And>x. x \<in> set xs \<Longrightarrow> p x = Inr (q x)) \<Longrightarrow> every_e p xs = Inr (list_all q xs)"
  by (induction xs) auto

lemma map_e_total: "(\<And>x. x \<in> set xs \<Longrightarrow> f x = Inr (g x)) \<Longrightarrow> map_e f xs = Inr (map g xs)"
  by (induction xs) auto

lemma rowCheck_typed: "isKeyOrNull row \<Longrightarrow> rowCheck row = Inr (list_all (\<lambda>u. u = 0) (unknowns row))"
  by (cases row) (simp_all add: rowCheck_def)

lemma rowRid_typed: "isKeyOrNull row \<Longrightarrow> rowRid row = Inr (ridOnly row)"
  by (cases row) (simp_all add: rowRid_def)

lemma unknownIsZero_key: "isKey e \<Longrightarrow> unknownIsZero e = Inr (list_all (\<lambda>u. u = 0) (unknowns e))"
  by (cases e) simp_all

lemma getRid_key: "isKey e \<Longrightarrow> getRid e = Inr (ridOnly e)"
  by (cases e) simp_all

lemma list_all_concat: "list_all P (concat xss) = list_all (list_all P) xss"
  by (induction xss) simp_all

lemma rowCheckArr_typed: "isKeyArray row \<Longrightarrow> rowCheckArr row = Inr (list_all (\<lambda>u. u = 0) (unknowns row))"
proof (cases row)
  case (Arr entries)
  assume "isKeyArray row"
  with Arr have k: "\<And>e. e \<in> set entries \<Longrightarrow> isKey e" by (simp add: list_all_iff)
  have "every_e unknownIsZero entries = Inr (list_all (\<lambda>e. list_all (\<lambda>u. u = 0) (unknowns e)) entries)"
    by (rule every_e_total) (simp add: unknownIsZero_key k)
  with Arr show ?thesis by (simp add: list_all_concat list.pred_map comp_def)
qed simp_all

lemma rowRidArr_typed: "isKeyArray row \<Longrightarrow> rowRidArr row = Inr (ridOnly row)"
proof (cases row)
  case (Arr entries)
  assume "isKeyArray row"
  with Arr have k: "\<And>e. e \<in> set entries \<Longrightarrow> isKey e" by (simp add: list_all_iff)
  have "map_e getRid entries = Inr (map ridOnly entries)"
    by (rule map_e_total) (simp add: getRid_key k)
  with Arr show ?thesis by simp
qed simp_all

lemma columnData_foreign:
  assumes "key (type_h h) = Some True" and "wellTypedKeys (type_h h) (entriesOf X df h)"
  shows "columnData X df h =
     (if allUnknownZero (entriesOf X df h) then Inr (map ridOnly (entriesOf X df h))
      else Inl (Error ''never''))"
proof (cases "ref (type_h h) = Some True")
  case True
  with assms(2) have t: "\<And>row. row \<in> set (entriesOf X df h) \<Longrightarrow> isKeyArray row"
    by (simp add: wellTypedKeys_def list_all_iff)
  have c: "every_e rowCheckArr (entriesOf X df h) = Inr (allUnknownZero (entriesOf X df h))"
    unfolding allUnknownZero_def by (rule every_e_total) (simp add: rowCheckArr_typed t)
  have m: "map_e rowRidArr (entriesOf X df h) = Inr (map ridOnly (entriesOf X df h))"
    by (rule map_e_total) (simp add: rowRidArr_typed t)
  from True assms(1) c m show ?thesis by (simp add: columnData_def)
next
  case False
  with assms(2) have t: "\<And>row. row \<in> set (entriesOf X df h) \<Longrightarrow> isKeyOrNull row"
    by (simp add: wellTypedKeys_def list_all_iff)
  have c: "every_e rowCheck (entriesOf X df h) = Inr (allUnknownZero (entriesOf X df h))"
    unfolding allUnknownZero_def by (rule every_e_total) (simp add: rowCheck_typed t)
  have m: "map_e rowRid (entriesOf X df h) = Inr (map ridOnly (entriesOf X df h))"
    by (rule map_e_total) (simp add: rowRid_typed t)
  from False assms(1) c m show ?thesis by (simp add: columnData_def)
qed

lemma columnData_plain: "key (type_h h) \<noteq> Some True \<Longrightarrow> columnData X df h = Inr (entriesOf X df h)"
  by (simp add: columnData_def)

lemma collectColumns_names:
  "collectColumns X df idx hs = Inr cols \<Longrightarrow> map fst cols = columnNames idx hs"
  by (induction hs arbitrary: idx cols) (auto split: sum.splits)

lemma collectColumns_raises:
  "h \<in> set hs \<Longrightarrow> columnData X df h = Inl e \<Longrightarrow> \<exists>e'. collectColumns X df idx hs = Inl e'"
proof (induction hs arbitrary: idx)
  case Nil
  then show ?case by simp
next
  case (Cons a hs)
  show ?case
  proof (cases "columnData X df a")
    case (Inl e0)
    then show ?thesis by simp
  next
    case (Inr d)
    with Cons.prems have "h \<in> set hs" by auto
    from Cons.IH [OF this Cons.prems(2), of "Suc idx"] Inr show ?thesis by auto
  qed
qed

lemma collectColumns_plain:
  "(\<And>h. h \<in> set hs \<Longrightarrow> key (type_h h) \<noteq> Some True) \<Longrightarrow>
     collectColumns X df idx hs = Inr (zip (columnNames idx hs) (map (entriesOf X df) hs))"
  by (induction hs arbitrary: idx) (simp_all add: columnData_plain)

lemma length_columnNames: "length (columnNames idx hs) = length hs"
  by (induction hs arbitrary: idx) simp_all

lemma nth_columnNames: "i < length hs \<Longrightarrow> columnNames idx hs ! i = columnName (hs ! i) (idx + i)"
proof (induction hs arbitrary: idx i)
  case Nil
  then show ?case by simp
next
  case (Cons h hs)
  then show ?case by (cases i) simp_all
qed

text \<open>
  Claim C3, amended. For a file with \<open>rowCount = N\<close> and \<open>M\<close> materializable headers,
  none of them a foreign key, whose column names (the synthesized ones included)
  differ from one another and from \<open>_rid\<close>, \<open>collectData\<close> returns exactly \<open>N\<close> row
  objects; each has the \<open>M + 1\<close> keys \<open>_rid\<close> and the column names, and the \<open>_rid\<close> of
  the \<open>k\<close>-th row is \<open>k\<close>. When two columns share a name the row has fewer keys, as
  the counterexample shows for two headers named \<open>a\<close>.
\<close>

theorem collectData_rows:
  assumes "datFile v = Some f"
    and "\<forall>h\<in>set (materializableHeaders v). key (type_h h) \<noteq> Some True"
    and "distinct (''_rid'' # columnNames 0 (materializableHeaders v))"
  shows "\<exists>rows. collectData X v = Inr rows \<and> length rows = rowCount f \<and>
     (\<forall>k<rowCount f.
        length (rows ! k) = length (materializableHeaders v) + 1 \<and>
        map fst (rows ! k) = ''_rid'' # columnNames 0 (materializableHeaders v) \<and>
        map_of (rows ! k) ''_rid'' = Some (Num (int k)))"
proof -
  let ?hs = "materializableHeaders v"
  let ?cols = "zip (columnNames 0 ?hs) (map (entriesOf X (datFile v)) ?hs)"
  let ?rows = "rowsOf (rowCount f) (ridColumn (rowCount f) # ?cols)"
  from assms(2) have cc: "collectColumns X (datFile v) 0 ?hs = Inr ?cols"
    by (intro collectColumns_plain) simp
  with assms(1) have r: "collectData X v = Inr ?rows"
    by (simp add: collectData_def)
  have keys: "map fst ?cols = columnNames 0 ?hs"
    by (simp add: length_columnNames)
  have row: "length (?rows ! k) = length ?hs + 1 \<and>
        map fst (?rows ! k) = ''_rid'' # columnNames 0 ?hs \<and>
        map_of (?rows ! k) ''_rid'' = Some (Num (int k))" if k: "k < rowCount f" for k
  proof -
    let ?es = "map (\<lambda>col. (fst col, at (snd col) k)) (ridColumn (rowCount f) # ?cols)"
    have fst_es: "map fst ?es = ''_rid'' # columnNames 0 ?hs"
      using keys by (simp add: fst_ridColumn comp_def)
    with assms(3) have "distinct (map fst ?es)" by simp
    then have eq: "fromEntries ?es = ?es" by (rule fromEntries_distinct)
    from k have "?rows ! k = ?es"
      by (simp only: nth_rowsOf eq)
    moreover have "length ?es = length ?hs + 1"
      by (simp add: length_columnNames)
    moreover have "map_of ?es ''_rid'' = Some (Num (int k))"
      using k by (simp add: fst_ridColumn at_ridColumn)
    ultimately show ?thesis using fst_es by simp
  qed
  from r row show ?thesis by (auto simp: length_rowsOf)
qed

theorem collectData_rows_witness:
  "datFile (exViewer exPlain 2) = Some \<lparr> rowCount = 2, rowLength = 8, memsize_f = 4 \<rparr> \<and>
   list_all (\<lambda>h. key (type_h h) \<noteq> Some True) (materializableHeaders (exViewer exPlain 2)) \<and>
   distinct (''_rid'' # columnNames 0 (materializableHeaders (exViewer exPlain 2))) \<and>
   length (materializableHeaders (exViewer exPlain 2)) = 2 \<and>
   (\<exists>rows. collectData exExternals (exViewer exPlain 2) = Inr rows \<and> length rows = 2 \<and>
      length (rows ! 0) = 3 \<and> length (rows ! 1) = 3 \<and>
      map_of (rows ! 0) ''_rid'' = Some (Num 0) \<and> map_of (rows ! 1) ''_rid'' = Some (Num 1))"
proof -
  let ?v = "exViewer exPlain 2"
  let ?f = "\<lparr> rowCount = 2, rowLength = 8, memsize_f = 4 \<rparr>"
  have d: "datFile ?v = Some ?f" by (simp add: exViewer_def)
  have m: "materializableHeaders ?v = [exPlain ! 0, exPlain ! 2]" by code_simp
  have k: "\<forall>h\<in>set (materializableHeaders ?v). key (type_h h) \<noteq> Some True"
    unfolding m by (simp add: exPlain_def exHeader_def noType_def)
  have n: "distinct (''_rid'' # columnNames 0 (materializableHeaders ?v))" by code_simp
  from collectData_rows [OF d k n, of exExternals] obtain rows where
    r: "collectData exExternals ?v = Inr rows" "length rows = 2" and
    a: "\<And>k. k < 2 \<Longrightarrow> length (rows ! k) = length (materializableHeaders ?v) + 1 \<and>
          map_of (rows ! k) ''_rid'' = Some (Num (int k))"
    by auto
  from a [of 0] a [of 1] r d k n show ?thesis
    by (simp add: m list_all_iff)
qed

theorem collectData_rows_counterexample:
  "length (materializableHeaders (exViewer exDup 1)) = 2 \<and>
   collectData exExternals (exViewer exDup 1) = Inr [[(''_rid'', Num 0), (''a'', Num 2)]]"
  by code_simp

text \<open>
  Claim C8. Let \<open>all\<close> be the columns that \<open>collectData\<close> has built, \<open>_rid\<close> first.
  The call returns whatever names the columns have, and in every row the value
  under a name is that of the last column with this name: a later column
  overwrites an earlier one, and the row has one key per distinct name.
\<close>

theorem collectData_overwrites:
  assumes "collectColumns X (datFile v) 0 (materializableHeaders v) = Inr cols"
    and "datFile v = Some f"
    and "all = ridColumn (rowCount f) # cols"
    and "i < length all"
    and "\<forall>j. i < j \<and> j < length all \<longrightarrow> fst (all ! j) \<noteq> fst (all ! i)"
    and "k < rowCount f"
  shows "\<exists>rows. collectData X v = Inr rows \<and> length rows = rowCount f \<and>
           map_of (rows ! k) (fst (all ! i)) = Some (at (snd (all ! i)) k) \<and>
           length (rows ! k) = card (set (map fst all))"
proof -
  let ?es = "map (\<lambda>col. (fst col, at (snd col) k)) all"
  from assms(1,2,3) have r: "collectData X v = Inr (rowsOf (rowCount f) all)"
    by (simp add: collectData_def)
  from assms(6) have row: "rowsOf (rowCount f) all ! k = fromEntries ?es"
    by (rule nth_rowsOf)
  have i: "i < length ?es" using assms(4) by simp
  have last: "\<forall>j. i < j \<and> j < length ?es \<longrightarrow> fst (?es ! j) \<noteq> fst (?es ! i)"
    using assms(4,5) by simp
  from map_of_rev_last [OF i last] assms(4)
  have v: "map_of (fromEntries ?es) (fst (all ! i)) = Some (at (snd (all ! i)) k)"
    by (simp add: map_of_fromEntries)
  have n: "length (fromEntries ?es) = card (set (map fst all))"
    by (simp add: length_fromEntries comp_def)
  from r row v n show ?thesis by (simp add: length_rowsOf)
qed

theorem collectData_overwrites_witness:
  "collectColumns exExternals (datFile (exViewer exDup 1)) 0 (materializableHeaders (exViewer exDup 1))
     = Inr [(''a'', [Num 1]), (''a'', [Num 2])] \<and>
   (\<exists>rows. collectData exExternals (exViewer exDup 1) = Inr rows \<and> length rows = 1 \<and>
      map_of (rows ! 0) ''a'' = Some (Num 2) \<and> length (rows ! 0) = 2)"
proof -
  let ?v = "exViewer exDup 1"
  let ?f = "\<lparr> rowCount = 1, rowLength = 8, memsize_f = 4 \<rparr>"
  let ?cols = "[(''a'', [Num 1]), (''a'', [Num 2])]"
  let ?all = "ridColumn (rowCount ?f) # ?cols"
  have c: "collectColumns exExternals (datFile ?v) 0 (materializableHeaders ?v) = Inr ?cols"
    by code_simp
  have d: "datFile ?v = Some ?f" by (simp add: exViewer_def)
  have i: "2 < length ?all" by simp
  have l: "\<forall>j. 2 < j \<and> j < length ?all \<longrightarrow> fst (?all ! j) \<noteq> fst (?all ! 2)" by simp
  have k: "0 < rowCount ?f" by simp
  have card: "card (set (map fst ?all)) = 2" by (simp add: ridColumn_def)
  from collectData_overwrites [OF c d refl i l k] card c show ?thesis
    by (simp add: at_def)
qed

subsection \<open>From the columns to the returned rows\<close>

lemma collectColumns_nth:
  "collectColumns X df idx hs = Inr cols \<Longrightarrow>
     length cols = length hs \<and>
     (\<forall>i<length hs. fst (cols ! i) = columnName (hs ! i) (idx + i) \<and>
                     columnData X df (hs ! i) = Inr (snd (cols ! i)))"
proof (induction hs arbitrary: idx cols)
  case Nil
  then show ?case by simp
next
  case (Cons h hs)
  from Cons.prems obtain d cs where
    d: "columnData X df h = Inr d" and cs: "collectColumns X df (Suc idx) hs = Inr cs" and
    cols: "cols = (columnName h idx, d) # cs"
    by (auto split: sum.splits)
  from Cons.IH [OF cs] have len: "length cs = length hs"
    and nth: "\<And>i. i < length hs \<Longrightarrow> fst (cs ! i) = columnName (hs ! i) (Suc idx + i) \<and>
                     columnData X df (hs ! i) = Inr (snd (cs ! i))"
    by simp_all
  show ?case
  proof (intro conjI allI impI)
    from len cols show "length cols = length (h # hs)" by simp
  next
    fix i assume "i < length (h # hs)"
    then show "fst (cols ! i) = columnName ((h # hs) ! i) (idx + i)"
      using cols d nth by (cases i) simp_all
  next
    fix i assume "i < length (h # hs)"
    then show "columnData X df ((h # hs) ! i) = Inr (snd (cols ! i))"
      using cols d nth by (cases i) simp_all
  qed
qed

lemma collectColumns_returns:
  "(\<And>g. g \<in> set hs \<Longrightarrow> \<exists>d. columnData X df g = Inr d) \<Longrightarrow>
     \<exists>cols. collectColumns X df idx hs = Inr cols"
proof (induction hs arbitrary: idx)
  case Nil
  then show ?case by simp
next
  case (Cons h hs)
  from Cons.prems [of h] obtain d where d: "columnData X df h = Inr d" by auto
  from Cons.IH [of "Suc idx"] Cons.prems obtain cs where "collectColumns X df (Suc idx) hs = Inr cs"
    by auto
  with d show ?case by simp
qed

lemma rowsOf_lookup:
  assumes "i < length all"
    and "\<forall>j. i < j \<and> j < length all \<longrightarrow> fst (all ! j) \<noteq> fst (all ! i)"
    and "k < n"
  shows "map_of (rowsOf n all ! k) (fst (all ! i)) = Some (at (snd (all ! i)) k)"
proof -
  let ?es = "map (\<lambda>col. (fst col, at (snd col) k)) all"
  have i: "i < length ?es" using assms(1) by simp
  have last: "\<forall>j. i < j \<and> j < length ?es \<longrightarrow> fst (?es ! j) \<noteq> fst (?es ! i)"
    using assms(1,2) by simp
  from map_of_rev_last [OF i last] assms(1)
  have "map_of (fromEntries ?es) (fst (all ! i)) = Some (at (snd (all ! i)) k)"
    by (simp add: map_of_fromEntries)
  with assms(3) show ?thesis by (simp add: nth_rowsOf)
qed

lemma rowsOf_keys: "k < n \<Longrightarrow> fst ` set (rowsOf n all ! k) = fst ` set all"
  using keys_fromEntries [of "map (\<lambda>col. (fst col, at (snd col) k)) all"]
  by (simp add: nth_rowsOf image_image)

text \<open>
  What \<open>collectData\<close> returns for the column of the \<open>i\<close>-th materializable header,
  when no column raises.
\<close>

lemma collectData_column:
  assumes df: "datFile v = Some f"
    and i: "i < length (materializableHeaders v)"
    and ok: "\<And>j. j < length (materializableHeaders v) \<Longrightarrow>
               \<exists>d. columnData X (datFile v) (materializableHeaders v ! j) = Inr d"
    and d: "columnData X (datFile v) (materializableHeaders v ! i) = Inr d"
  shows "\<exists>rows. collectData X v = Inr rows \<and> length rows = rowCount f \<and>
     (\<forall>k<rowCount f.
        columnName (materializableHeaders v ! i) i \<in> fst ` set (rows ! k) \<and>
        ((\<forall>j. i < j \<and> j < length (materializableHeaders v) \<longrightarrow>
               columnName (materializableHeaders v ! j) j \<noteq> columnName (materializableHeaders v ! i) i) \<longrightarrow>
         map_of (rows ! k) (columnName (materializableHeaders v ! i) i) = Some (at d k)))"
proof -
  let ?H = "materializableHeaders v"
  have "\<And>g. g \<in> set ?H \<Longrightarrow> \<exists>d. columnData X (datFile v) g = Inr d"
    using ok by (auto simp: in_set_conv_nth)
  from collectColumns_returns [OF this, where idx = 0] obtain cols where
    cols: "collectColumns X (datFile v) 0 ?H = Inr cols" by blast
  from collectColumns_nth [OF cols] have len: "length cols = length ?H"
    and nth: "\<And>j. j < length ?H \<Longrightarrow> fst (cols ! j) = columnName (?H ! j) j \<and>
                columnData X (datFile v) (?H ! j) = Inr (snd (cols ! j))"
    by simp_all
  let ?all = "ridColumn (rowCount f) # cols"
  from cols df have r: "collectData X v = Inr (rowsOf (rowCount f) ?all)"
    by (simp add: collectData_def)
  from nth [OF i] d have di: "snd (cols ! i) = d" and ni: "fst (cols ! i) = columnName (?H ! i) i"
    by simp_all
  have row: "columnName (?H ! i) i \<in> fst ` set (rowsOf (rowCount f) ?all ! k) \<and>
        ((\<forall>j. i < j \<and> j < length ?H \<longrightarrow> columnName (?H ! j) j \<noteq> columnName (?H ! i) i) \<longrightarrow>
         map_of (rowsOf (rowCount f) ?all ! k) (columnName (?H ! i) i) = Some (at d k))"
    if k: "k < rowCount f" for k
  proof (intro conjI impI)
    from i len have "cols ! i \<in> set cols" by simp
    then have "fst (cols ! i) \<in> fst ` set ?all" by auto
    with ni show "columnName (?H ! i) i \<in> fst ` set (rowsOf (rowCount f) ?all ! k)"
      by (simp only: rowsOf_keys [OF k])
  next
    assume last: "\<forall>j. i < j \<and> j < length ?H \<longrightarrow> columnName (?H ! j) j \<noteq> columnName (?H ! i) i"
    have i': "Suc i < length ?all" using i len by simp
    have last': "\<forall>j. Suc i < j \<and> j < length ?all \<longrightarrow> fst (?all ! j) \<noteq> fst (?all ! Suc i)"
    proof (intro allI impI)
      fix j assume j: "Suc i < j \<and> j < length ?all"
      then obtain j' where j': "j = Suc j'" "i < j'" "j' < length ?H"
        using len by (cases j) auto
      from last j' nth [of j'] ni show "fst (?all ! j) \<noteq> fst (?all ! Suc i)" by simp
    qed
    from rowsOf_lookup [OF i' last' k] ni di
    show "map_of (rowsOf (rowCount f) ?all ! k) (columnName (?H ! i) i) = Some (at d k)" by simp
  qed
  from r row show ?thesis by (auto simp: length_rowsOf)
qed

text \<open>
  Claim C4. Let the \<open>i\<close>-th materializable header of the viewer be a foreign key
  whose decoded entries \<open>E\<close> are typed as the source casts them (\<open>wellTypedKeys\<close>).
  When every \<open>unknown\<close> component of every entry and sub-entry is 0 and no other
  column raises, \<open>collectData\<close> returns one row per record, every row has the
  column's name as a key, and the value under it in row \<open>k\<close> is the \<open>k\<close>-th entry with
  each key object replaced by its \<open>rid\<close> (unless a later column has the same name
  and overwrites it). When some \<open>unknown\<close> component is not 0, the column raises
  \<open>Error('never')\<close> and \<open>collectData\<close> raises, returning no rows.
\<close>

theorem collectData_foreign:
  assumes H: "H = materializableHeaders v"
    and i: "i < length H"
    and fk: "key (type_h (H ! i)) = Some True"
    and E: "E = entriesOf X (datFile v) (H ! i)"
    and typed: "wellTypedKeys (type_h (H ! i)) E"
  shows "(\<forall>f. datFile v = Some f \<and> allUnknownZero E \<and>
              (\<forall>j<length H. j \<noteq> i \<longrightarrow> (\<exists>d. columnData X (datFile v) (H ! j) = Inr d)) \<longrightarrow>
            (\<exists>rows. collectData X v = Inr rows \<and> length rows = rowCount f \<and>
               (\<forall>k<rowCount f.
                  columnName (H ! i) i \<in> fst ` set (rows ! k) \<and>
                  ((\<forall>j. i < j \<and> j < length H \<longrightarrow> columnName (H ! j) j \<noteq> columnName (H ! i) i) \<longrightarrow>
                   map_of (rows ! k) (columnName (H ! i) i) = Some (at (map ridOnly E) k))))) \<and>
         (\<not> allUnknownZero E \<longrightarrow>
            columnData X (datFile v) (H ! i) = Inl (Error ''never'') \<and> (\<exists>e. collectData X v = Inl e))"
proof (intro conjI allI impI)
  fix f
  assume a: "datFile v = Some f \<and> allUnknownZero E \<and>
              (\<forall>j<length H. j \<noteq> i \<longrightarrow> (\<exists>d. columnData X (datFile v) (H ! j) = Inr d))"
  from a have z: "allUnknownZero E" by blast
  have d: "columnData X (datFile v) (H ! i) = Inr (map ridOnly E)"
    using columnData_foreign [OF fk typed [unfolded E]] z unfolding E by simp
  have ok: "\<exists>d. columnData X (datFile v) (materializableHeaders v ! j) = Inr d"
    if "j < length (materializableHeaders v)" for j
    using that a d H by (cases "j = i") auto
  from a have df: "datFile v = Some f" by simp
  from collectData_column [OF df i [unfolded H] ok d [unfolded H]] H
  show "\<exists>rows. collectData X v = Inr rows \<and> length rows = rowCount f \<and>
               (\<forall>k<rowCount f.
                  columnName (H ! i) i \<in> fst ` set (rows ! k) \<and>
                  ((\<forall>j. i < j \<and> j < length H \<longrightarrow> columnName (H ! j) j \<noteq> columnName (H ! i) i) \<longrightarrow>
                   map_of (rows ! k) (columnName (H ! i) i) = Some (at (map ridOnly E) k)))"
    by simp
next
  assume n: "\<not> allUnknownZero E"
  show c: "columnData X (datFile v) (H ! i) = Inl (Error ''never'')"
    using columnData_foreign [OF fk typed [unfolded E]] n unfolding E by simp
  from i have "H ! i \<in> set (materializableHeaders v)" by (simp add: H)
  from collectColumns_raises [OF this c, of 0] show "\<exists>e. collectData X v = Inl e"
    by (auto simp: collectData_def)
qed

lemma less_2_nat: "(j::nat) < 2 \<Longrightarrow> j = 0 \<or> j = 1"
  by auto

theorem collectData_foreign_witness:
  "key (type_h (materializableHeaders (exViewer exKeys 2) ! 1)) = Some True \<and>
   entriesOf exExternals (datFile (exViewer exKeys 2)) (materializableHeaders (exViewer exKeys 2) ! 1)
     = [Arr [KeyObj 1 0, KeyObj 2 0], Arr []] \<and>
   (\<exists>rows. collectData exExternals (exViewer exKeys 2) = Inr rows \<and> length rows = 2 \<and>
      map_of (rows ! 0) ''tags'' = Some (Arr [Num 1, Num 2]) \<and>
      map_of (rows ! 1) ''tags'' = Some (Arr [])) \<and>
   key (type_h (materializableHeaders (exViewer exBadKey 2) ! 1)) = Some True \<and>
   entriesOf exExternals (datFile (exViewer exBadKey 2)) (materializableHeaders (exViewer exBadKey 2) ! 1)
     = [KeyObj 5 0, KeyObj 6 1] \<and>
   (\<exists>e. collectData exExternals (exViewer exBadKey 2) = Inl e)"
proof -
  let ?v = "exViewer exKeys 2" and ?w = "exViewer exBadKey 2"
  let ?f = "\<lparr> rowCount = 2, rowLength = 8, memsize_f = 4 \<rparr>"
  let ?E = "[Arr [KeyObj 1 0, KeyObj 2 0], Arr []]" and ?B = "[KeyObj 5 0, KeyObj 6 1]"
  have i: "1 < length (materializableHeaders ?v)" by code_simp
  have fk: "key (type_h (materializableHeaders ?v ! 1)) = Some True" by code_simp
  have E: "?E = entriesOf exExternals (datFile ?v) (materializableHeaders ?v ! 1)" by code_simp
  have t: "wellTypedKeys (type_h (materializableHeaders ?v ! 1)) ?E" by code_simp
  have df: "datFile ?v = Some ?f" by (simp add: exViewer_def)
  have z: "allUnknownZero ?E" by code_simp
  have l: "length (materializableHeaders ?v) = 2" by code_simp
  have c0: "columnData exExternals (datFile ?v) (materializableHeaders ?v ! 0) = Inr [Num 5, Null]"
    by code_simp
  have others: "\<forall>j<length (materializableHeaders ?v). j \<noteq> 1 \<longrightarrow>
      (\<exists>d. columnData exExternals (datFile ?v) (materializableHeaders ?v ! j) = Inr d)"
    unfolding l using c0 by (auto dest!: less_2_nat)
  have last: "\<forall>j. 1 < j \<and> j < length (materializableHeaders ?v) \<longrightarrow>
      columnName (materializableHeaders ?v ! j) j \<noteq> columnName (materializableHeaders ?v ! 1) 1"
    unfolding l by auto
  have n: "columnName (materializableHeaders ?v ! 1) 1 = ''tags''" by code_simp
  from collectData_foreign [OF refl i fk E t] df z others obtain rows where
    r: "collectData exExternals ?v = Inr rows" "length rows = 2" and
    a: "\<And>k. k < 2 \<Longrightarrow> map_of (rows ! k) ''tags'' = Some (at (map ridOnly ?E) k)"
    using last n by auto
  from a [of 0] a [of 1] have v: "map_of (rows ! 0) ''tags'' = Some (Arr [Num 1, Num 2])"
    "map_of (rows ! 1) ''tags'' = Some (Arr [])"
    by (simp_all add: at_def)
  have i2: "1 < length (materializableHeaders ?w)" by code_simp
  have fk2: "key (type_h (materializableHeaders ?w ! 1)) = Some True" by code_simp
  have B: "?B = entriesOf exExternals (datFile ?w) (materializableHeaders ?w ! 1)" by code_simp
  have t2: "wellTypedKeys (type_h (materializableHeaders ?w ! 1)) ?B" by code_simp
  have nz: "\<not> allUnknownZero ?B" by code_simp
  from collectData_foreign [OF refl i2 fk2 B t2] nz
  have bad: "\<exists>e. collectData exExternals ?w = Inl e" by blast
  from fk E [symmetric] r v fk2 B [symmetric] bad show ?thesis by blast
qed

text \<open>
  Claim C9. A materializable header whose name is \<open>null\<close> or the empty string gets
  the name \<open>Unknown<N>\<close>, where \<open>N\<close> is its position among the materializable
  headers, counted from 1: when no column raises, \<open>collectData\<close> returns one row
  per record, every row has the key \<open>Unknown<N>\<close>, and the value under it is the
  header's data for that row (unless a later column has the same name).
\<close>

theorem collectData_unnamed:
  assumes H: "H = materializableHeaders v"
    and i: "i < length H"
    and nm: "name (H ! i) = None \<or> name (H ! i) = Some []"
  shows "columnName (H ! i) i = ''Unknown'' @ String_of (i + 1) \<and>
     (\<forall>f. datFile v = Some f \<and>
           (\<forall>j<length H. \<exists>d. columnData X (datFile v) (H ! j) = Inr d) \<longrightarrow>
        (\<exists>rows. collectData X v = Inr rows \<and> length rows = rowCount f \<and>
           (\<forall>k<rowCount f.
              ''Unknown'' @ String_of (i + 1) \<in> fst ` set (rows ! k) \<and>
              ((\<forall>j. i < j \<and> j < length H \<longrightarrow> columnName (H ! j) j \<noteq> ''Unknown'' @ String_of (i + 1)) \<longrightarrow>
               (\<forall>d. columnData X (datFile v) (H ! i) = Inr d \<longrightarrow>
                  map_of (rows ! k) (''Unknown'' @ String_of (i + 1)) = Some (at d k))))))"
proof (intro conjI allI impI)
  from nm show n: "columnName (H ! i) i = ''Unknown'' @ String_of (i + 1)"
    by (auto simp: columnName_def)
  fix f
  assume a: "datFile v = Some f \<and> (\<forall>j<length H. \<exists>d. columnData X (datFile v) (H ! j) = Inr d)"
  then have df: "datFile v = Some f" by blast
  from a have "\<forall>j<length H. \<exists>d. columnData X (datFile v) (H ! j) = Inr d" by blast
  then have ok: "\<And>j. j < length (materializableHeaders v) \<Longrightarrow>
      \<exists>d. columnData X (datFile v) (materializableHeaders v ! j) = Inr d"
    unfolding H by blast
  from ok [OF i [unfolded H]] obtain d0 where
    d0: "columnData X (datFile v) (materializableHeaders v ! i) = Inr d0" by blast
  from collectData_column [OF df i [unfolded H] ok d0] H n d0
  show "\<exists>rows. collectData X v = Inr rows \<and> length rows = rowCount f \<and>
           (\<forall>k<rowCount f.
              ''Unknown'' @ String_of (i + 1) \<in> fst ` set (rows ! k) \<and>
              ((\<forall>j. i < j \<and> j < length H \<longrightarrow> columnName (H ! j) j \<noteq> ''Unknown'' @ String_of (i + 1)) \<longrightarrow>
               (\<forall>d. columnData X (datFile v) (H ! i) = Inr d \<longrightarrow>
                  map_of (rows ! k) (''Unknown'' @ String_of (i + 1)) = Some (at d k))))"
    by auto
qed

theorem collectData_unnamed_witness:
  "1 < length (materializableHeaders (exViewer exPlain 2)) \<and>
   name (materializableHeaders (exViewer exPlain 2) ! 1) = Some [] \<and>
   columnName (materializableHeaders (exViewer exPlain 2) ! 1) 1 = ''Unknown2'' \<and>
   (\<exists>rows. collectData exExternals (exViewer exPlain 2) = Inr rows \<and> length rows = 2 \<and>
      ''Unknown2'' \<in> fst ` set (rows ! 0) \<and> ''Unknown2'' \<in> fst ` set (rows ! 1) \<and>
      map_of (rows ! 0) ''Unknown2'' = Some (Str ''x'') \<and>
      map_of (rows ! 1) ''Unknown2'' = Some (Str ''y''))"
proof -
  let ?v = "exViewer exPlain 2"
  let ?f = "\<lparr> rowCount = 2, rowLength = 8, memsize_f = 4 \<rparr>"
  have i: "1 < length (materializableHeaders ?v)" by code_simp
  have l: "length (materializableHeaders ?v) = 2" by code_simp
  have n: "name (materializableHeaders ?v ! 1) = Some []" by code_simp
  have s: "''Unknown'' @ String_of (1 + 1) = ''Unknown2''" by code_simp
  have df: "datFile ?v = Some ?f" by (simp add: exViewer_def)
  have c0: "columnData exExternals (datFile ?v) (materializableHeaders ?v ! 0) = Inr [Num 10, Num 20]"
    by code_simp
  have c1: "columnData exExternals (datFile ?v) (materializableHeaders ?v ! 1) = Inr [Str ''x'', Str ''y'']"
    by code_simp
  have ok: "\<forall>j<length (materializableHeaders ?v).
      \<exists>d. columnData exExternals (datFile ?v) (materializableHeaders ?v ! j) = Inr d"
    unfolding l using c0 c1 by (auto dest!: less_2_nat)
  have last: "\<forall>j. 1 < j \<and> j < length (materializableHeaders ?v) \<longrightarrow>
      columnName (materializableHeaders ?v ! j) j \<noteq> ''Unknown2''"
    unfolding l by auto
  from collectData_unnamed [OF refl i disjI2 [OF n], of exExternals] s
  have cn: "columnName (materializableHeaders ?v ! 1) 1 = ''Unknown2''"
    and g: "\<And>f. datFile ?v = Some f \<Longrightarrow>
        (\<forall>j<length (materializableHeaders ?v).
           \<exists>d. columnData exExternals (datFile ?v) (materializableHeaders ?v ! j) = Inr d) \<Longrightarrow>
        (\<exists>rows. collectData exExternals ?v = Inr rows \<and> length rows = rowCount f \<and>
           (\<forall>k<rowCount f.
              ''Unknown2'' \<in> fst ` set (rows ! k) \<and>
              ((\<forall>j. 1 < j \<and> j < length (materializableHeaders ?v) \<longrightarrow>
                  columnName (materializableHeaders ?v ! j) j \<noteq> ''Unknown2'') \<longrightarrow>
               (\<forall>d. columnData exExternals (datFile ?v) (materializableHeaders ?v ! 1) = Inr d \<longrightarrow>
                  map_of (rows ! k) ''Unknown2'' = Some (at d k)))))"
    by simp_all
  from g [OF df ok] last c1 obtain rows where
    r: "collectData exExternals ?v = Inr rows" "length rows = 2" and
    a: "\<And>k. k < 2 \<Longrightarrow> ''Unknown2'' \<in> fst ` set (rows ! k) \<and>
          map_of (rows ! k) ''Unknown2'' = Some (at [Str ''x'', Str ''y''] k)"
    by auto
  from a [of 0] a [of 1] r i n cn show ?thesis
    by (auto simp: at_def)
qed

text \<open>
  Claim C10. Let the \<open>i\<close>-th materializable header be a foreign key that is not
  array-typed, with entries that are \<open>null\<close> or key objects with \<open>unknown = 0\<close>, and
  let no other column raise and no later column have the same name. Then
  \<open>collectData\<close> returns one row per record; the value under the column's name in
  row \<open>k\<close> is \<open>null\<close> where the \<open>k\<close>-th entry is \<open>null\<close> and the entry's \<open>rid\<close> elsewhere.
\<close>

theorem collectData_null_key:
  assumes H: "H = materializableHeaders v"
    and df: "datFile v = Some f"
    and i: "i < length H"
    and fk: "key (type_h (H ! i)) = Some True"
    and na: "ref (type_h (H ! i)) \<noteq> Some True"
    and E: "E = entriesOf X (datFile v) (H ! i)"
    and typed: "\<forall>row\<in>set E. row = Null \<or> (\<exists>r. row = KeyObj r 0)"
    and others: "\<forall>j<length H. j \<noteq> i \<longrightarrow> (\<exists>d. columnData X (datFile v) (H ! j) = Inr d)"
    and last: "\<forall>j. i < j \<and> j < length H \<longrightarrow> columnName (H ! j) j \<noteq> columnName (H ! i) i"
  shows "\<exists>rows. collectData X v = Inr rows \<and> length rows = rowCount f \<and>
     (\<forall>k<rowCount f.
        map_of (rows ! k) (columnName (H ! i) i)
          = Some (at (map (\<lambda>row. if row = Null then Null else Num (rid row)) E) k) \<and>
        (k < length E \<and> E ! k = Null \<longrightarrow> map_of (rows ! k) (columnName (H ! i) i) = Some Null))"
proof -
  let ?g = "\<lambda>row. if row = Null then Null else Num (rid row)"
  have c: "every_e rowCheck E = Inr (list_all (\<lambda>row. True) E)"
    by (rule every_e_total) (use typed in \<open>auto simp: rowCheck_def\<close>)
  have m: "map_e rowRid E = Inr (map ?g E)"
    by (rule map_e_total) (use typed in \<open>auto simp: rowRid_def\<close>)
  from fk na c m have d: "columnData X (datFile v) (H ! i) = Inr (map ?g E)"
    unfolding E by (simp add: columnData_def list_all_iff)
  have ok: "\<exists>d. columnData X (datFile v) (materializableHeaders v ! j) = Inr d"
    if "j < length (materializableHeaders v)" for j
    using that others d H by (cases "j = i") auto
  from collectData_column [OF df i [unfolded H] ok d [unfolded H]] H last obtain rows where
    r: "collectData X v = Inr rows" "length rows = rowCount f" and
    a: "\<And>k. k < rowCount f \<Longrightarrow> map_of (rows ! k) (columnName (H ! i) i) = Some (at (map ?g E) k)"
    by auto
  have "map_of (rows ! k) (columnName (H ! i) i) = Some Null"
    if "k < rowCount f" "k < length E \<and> E ! k = Null" for k
    using a [OF that(1)] that(2) by (simp add: at_def)
  with r a show ?thesis by blast
qed

theorem collectData_null_key_witness:
  "datFile (exViewer exKeys 2) = Some \<lparr> rowCount = 2, rowLength = 8, memsize_f = 4 \<rparr> \<and>
   key (type_h (materializableHeaders (exViewer exKeys 2) ! 0)) = Some True \<and>
   ref (type_h (materializableHeaders (exViewer exKeys 2) ! 0)) \<noteq> Some True \<and>
   entriesOf exExternals (datFile (exViewer exKeys 2)) (materializableHeaders (exViewer exKeys 2) ! 0)
     = [KeyObj 5 0, Null] \<and>
   columnName (materializableHeaders (exViewer exKeys 2) ! 0) 0 = ''parent'' \<and>
   (\<exists>rows. collectData exExternals (exViewer exKeys 2) = Inr rows \<and> length rows = 2 \<and>
      map_of (rows ! 0) ''parent'' = Some (Num 5) \<and>
      map_of (rows ! 1) ''parent'' = Some Null)"
proof -
  let ?v = "exViewer exKeys 2"
  let ?f = "\<lparr> rowCount = 2, rowLength = 8, memsize_f = 4 \<rparr>"
  let ?E = "[KeyObj 5 0, Null]"
  have df: "datFile ?v = Some ?f" by (simp add: exViewer_def)
  have l: "length (materializableHeaders ?v) = 2" by code_simp
  have i: "0 < length (materializableHeaders ?v)" by code_simp
  have fk: "key (type_h (materializableHeaders ?v ! 0)) = Some True" by code_simp
  have na: "ref (type_h (materializableHeaders ?v ! 0)) \<noteq> Some True" by code_simp
  have E: "?E = entriesOf exExternals (datFile ?v) (materializableHeaders ?v ! 0)" by code_simp
  have t: "\<forall>row\<in>set ?E. row = Null \<or> (\<exists>r. row = KeyObj r 0)" by simp
  have c1: "columnData exExternals (datFile ?v) (materializableHeaders ?v ! 1)
      = Inr [Arr [Num 1, Num 2], Arr []]" by code_simp
  have others: "\<forall>j<length (materializableHeaders ?v). j \<noteq> 0 \<longrightarrow>
      (\<exists>d. columnData exExternals (datFile ?v) (materializableHeaders ?v ! j) = Inr d)"
    unfolding l using c1 by (auto dest!: less_2_nat)
  have n0: "columnName (materializableHeaders ?v ! 0) 0 = ''parent''" by code_simp
  have n1: "columnName (materializableHeaders ?v ! 1) 1 = ''tags''" by code_simp
  have last: "\<forall>j. 0 < j \<and> j < length (materializableHeaders ?v) \<longrightarrow>
      columnName (materializableHeaders ?v ! j) j \<noteq> columnName (materializableHeaders ?v ! 0) 0"
    unfolding l n0 using n1 by (auto dest!: less_2_nat)
  from collectData_null_key [OF refl df i fk na E t others last] obtain rows where
    r: "collectData exExternals ?v = Inr rows" "length rows = 2" and
    a: "\<And>k. k < 2 \<Longrightarrow> map_of (rows ! k) ''parent''
          = Some (at (map (\<lambda>row. if row = Null then Null else Num (rid row)) ?E) k)"
    unfolding n0 by auto
  from a [of 0] a [of 1] r df fk na E [symmetric] n0 show ?thesis
    by (auto simp: at_def)
qed

section \<open>Properties of the byte-view toggles\<close>

lemma findIndex_Some:
  "findIndex p xs = Some i \<Longrightarrow> i < length xs \<and> p (xs ! i) \<and> (\<forall>j<i. \<not> p (xs ! j))"
proof (induction xs arbitrary: i)
  case Nil
  then show ?case by simp
next
  case (Cons x xs)
  show ?case
  proof (cases "p x")
    case True
    with Cons.prems show ?thesis by simp
  next
    case False
    with Cons.prems obtain i' where i': "findIndex p xs = Some i'" "i = Suc i'"
      by auto
    from Cons.IH [OF i'(1)] False i'(2) show ?thesis
      by (auto simp: less_Suc_eq_0_disj)
  qed
qed

lemma findIndex_first:
  "i < length xs \<Longrightarrow> p (xs ! i) \<Longrightarrow> (\<forall>j<i. \<not> p (xs ! j)) \<Longrightarrow> findIndex p xs = Some i"
proof (induction xs arbitrary: i)
  case Nil
  then show ?case by simp
next
  case (Cons x xs)
  show ?case
  proof (cases i)
    case 0
    with Cons.prems show ?thesis by simp
  next
    case (Suc i')
    from Cons.prems(3) Suc have nx: "\<not> p x" by auto
    from Cons.prems Suc have "findIndex p xs = Some i'"
      by (intro Cons.IH) auto
    with nx Suc show ?thesis by simp
  qed
qed

lemma Array_splice_delete:
  "s \<le> length xs \<Longrightarrow> Array_splice s (int n) [] xs = take s xs @ drop (s + n) xs"
  by (cases "n \<le> length xs - s") (simp_all add: Array_splice_def min_def)

lemma Array_splice_insert:
  "s \<le> length xs \<Longrightarrow> Array_splice s 0 items xs = take s xs @ items @ drop s xs"
  by (simp add: Array_splice_def min_def)

lemma collapse_list:
  assumes "i < length cs"
  shows "(take (Suc i) cs @ rest)[i := c] = take i cs @ [c] @ rest"
proof -
  from assms have "take (Suc i) cs = take i cs @ [cs ! i]"
    by (simp add: take_Suc_conv_app_nth)
  with assms show ?thesis by (simp add: list_update_append)
qed

lemma disableByteView_found:
  assumes "findIndex (\<lambda>col. offset col = offset_h (store v r)) (columns v) = Some i"
    and "1 \<le> length_h (store v r)"
  shows "disableByteView r v =
     (None, v\<lparr> store := setByteView None r (store v),
               columns := take i (columns v)
                 @ [(columns v ! i)\<lparr> header := Some r, selected := False \<rparr>]
                 @ drop (i + length_h (store v r)) (columns v) \<rparr>)"
proof -
  let ?cs = "columns v" and ?n = "length_h (store v r)"
  from findIndex_Some [OF assms(1)] have i: "i < length ?cs" by simp
  from assms(2) have dc: "int ?n - 1 = int (?n - 1)" by simp
  from i have sp: "Array_splice (Suc i) (int ?n - 1) [] ?cs = take (Suc i) ?cs @ drop (i + ?n) ?cs"
    unfolding dc using assms(2) Array_splice_delete [of "Suc i" ?cs "?n - 1"] by simp
  from i have nth: "(take (Suc i) ?cs @ drop (i + ?n) ?cs) ! i = ?cs ! i"
    by (simp add: nth_append)
  show ?thesis
    using assms(1) i
    by (simp add: disableByteView_def setByteView_def Let_def sp nth collapse_list)
qed

lemma enableByteView_found:
  assumes "stateColumns cns (columnStats v) = Inr fresh"
    and "findIndex (\<lambda>col. offset col = offset_h (store v r)) (columns v) = Some i"
  shows "enableByteView cns r v =
     (None, v\<lparr> store := setByteView (Some False) r (store v),
               columns := take i (columns v)
                 @ [(columns v ! i)\<lparr> header := None \<rparr>]
                 @ Array_slice (Suc (offset_h (store v r))) (offset_h (store v r) + length_h (store v r)) fresh
                 @ drop (Suc i) (columns v) \<rparr>)"
proof -
  let ?cs = "columns v"
  let ?items = "Array_slice (Suc (offset_h (store v r))) (offset_h (store v r) + length_h (store v r)) fresh"
  from findIndex_Some [OF assms(2)] have i: "i < length ?cs" by simp
  from i have sp: "Array_splice (Suc i) 0 ?items ?cs = take (Suc i) ?cs @ ?items @ drop (Suc i) ?cs"
    using Array_splice_insert [of "Suc i" ?cs ?items] by simp
  from i have nth: "(take (Suc i) ?cs @ ?items @ drop (Suc i) ?cs) ! i = ?cs ! i"
    by (simp add: nth_append)
  show ?thesis
    using assms i
    by (simp add: enableByteView_def setByteView_def Let_def sp nth collapse_list)
qed



lemma rawRun_items:
  assumes "rawRun fresh cs i off n" and "\<And>j. j < length fresh \<Longrightarrow> offset (fresh ! j) = j"
  shows "map (\<lambda>c. (offset c, stats c)) (Array_slice (Suc off) (off + n) fresh)
       = map (\<lambda>c. (offset c, stats c)) (take (n - 1) (drop (Suc i) cs))"
proof (rule nth_equalityI)
  from assms(1) have b: "n \<noteq> 0 \<Longrightarrow> i + n \<le> length cs \<and> off + n \<le> length fresh"
    using less_Suc_eq_le [of "i + (n - 1)" "length cs"] less_Suc_eq_le [of "off + (n - 1)" "length fresh"]
    by (auto simp: rawRun_def dest!: spec [of _ "n - 1"])
  then have l1: "length (Array_slice (Suc off) (off + n) fresh) = n - 1"
    by (cases "n = 0") (auto simp: Array_slice_def)
  from b have l2: "length (take (n - 1) (drop (Suc i) cs)) = n - 1"
    by (cases "n = 0") auto
  from l1 l2 show "length (map (\<lambda>c. (offset c, stats c)) (Array_slice (Suc off) (off + n) fresh))
       = length (map (\<lambda>c. (offset c, stats c)) (take (n - 1) (drop (Suc i) cs)))" by simp
  fix k assume "k < length (map (\<lambda>c. (offset c, stats c)) (Array_slice (Suc off) (off + n) fresh))"
  with l1 have k: "k < n - 1" by simp
  then have k1: "Suc k < n" by simp
  from assms(1) [unfolded rawRun_def, rule_format, OF k1]
  have r: "i + Suc k < length cs" "off + Suc k < length fresh"
    "offset (cs ! (i + Suc k)) = off + Suc k" "stats (cs ! (i + Suc k)) = stats (fresh ! (off + Suc k))"
    by blast+
  from k r have a: "Array_slice (Suc off) (off + n) fresh ! k = fresh ! (off + Suc k)"
    by (simp add: Array_slice_def)
  from k r have c: "take (n - 1) (drop (Suc i) cs) ! k = cs ! (i + Suc k)"
    by simp
  from k l1 l2 a c r assms(2) [OF r(2)]
  show "map (\<lambda>c. (offset c, stats c)) (Array_slice (Suc off) (off + n) fresh) ! k
       = map (\<lambda>c. (offset c, stats c)) (take (n - 1) (drop (Suc i) cs)) ! k"
    by simp
qed

lemma split_run:
  assumes "i + n \<le> length cs" and "1 \<le> n"
  shows "cs = take i cs @ [cs ! i] @ take (n - 1) (drop (Suc i) cs) @ drop (i + n) cs"
proof -
  from assms have i: "i < length cs" by simp
  from assms have "drop (i + n) cs = drop (n - 1) (drop (Suc i) cs)" by (simp add: add.commute)
  then have "take (n - 1) (drop (Suc i) cs) @ drop (i + n) cs = drop (Suc i) cs"
    by (simp only: append_take_drop_id)
  with i show ?thesis
    by (simp add: Cons_nth_drop_Suc)
qed

text \<open>
  Claim C1. Let the header \<open>r\<close> cover a contiguous run of byte columns of the
  viewer (\<open>rawRun\<close>, found at position \<open>i\<close>) and let the statistics be ones for which
  \<open>stateColumns\<close> returns. Then \<open>disableByteView\<close> followed by \<open>enableByteView\<close>
  raises nothing and leaves a sequence with the same offsets and the same stats
  at every position as before. The entries themselves differ: the reinserted
  ones are new, and the anchor has lost its \<open>selected\<close> flag.
\<close>

theorem toggle_roundtrip:
  assumes fresh: "stateColumns cns (columnStats v) = Inr fresh"
    and idx: "findIndex (\<lambda>col. offset col = offset_h (store v r)) (columns v) = Some i"
    and len: "1 \<le> length_h (store v r)"
    and run: "rawRun fresh (columns v) i (offset_h (store v r)) (length_h (store v r))"
  shows "fst (disableByteView r v) = None \<and>
         fst (enableByteView cns r (snd (disableByteView r v))) = None \<and>
         map (\<lambda>c. (offset c, stats c)) (columns (snd (enableByteView cns r (snd (disableByteView r v)))))
           = map (\<lambda>c. (offset c, stats c)) (columns v)"
proof -
  let ?cs = "columns v" and ?off = "offset_h (store v r)" and ?n = "length_h (store v r)"
  let ?f = "\<lambda>c. (offset c, stats c)"
  let ?c1 = "(?cs ! i)\<lparr> header := Some r, selected := False \<rparr>"
  let ?cs1 = "take i ?cs @ [?c1] @ drop (i + ?n) ?cs"
  let ?v1 = "v\<lparr> store := setByteView None r (store v), columns := ?cs1 \<rparr>"
  let ?items = "Array_slice (Suc ?off) (?off + ?n) fresh"
  note found = findIndex_Some [OF idx]
  from found have i: "i < length ?cs" by simp
  from run len have fit: "i + ?n \<le> length ?cs"
    using less_Suc_eq_le [of "i + (?n - 1)" "length ?cs"]
    by (auto simp: rawRun_def dest!: spec [of _ "?n - 1"])
  have d: "disableByteView r v = (None, ?v1)"
    by (rule disableByteView_found [OF idx len])
  have h1: "offset_h (setByteView None r (store v) r) = ?off"
    "length_h (setByteView None r (store v) r) = ?n"
    by (simp_all add: setByteView_def)
  have idx1: "findIndex (\<lambda>col. offset col = offset_h (store ?v1 r)) (columns ?v1) = Some i"
  proof (rule findIndex_first)
    from i show "i < length (columns ?v1)" by simp
    from i found show "offset (columns ?v1 ! i) = offset_h (store ?v1 r)"
      by (simp add: nth_append h1)
    from i found show "\<forall>j<i. offset (columns ?v1 ! j) \<noteq> offset_h (store ?v1 r)"
      by (simp add: nth_append h1)
  qed
  have fresh1: "stateColumns cns (columnStats ?v1) = Inr fresh"
    using fresh by simp
  from i have t: "take i ?cs1 = take i ?cs" "?cs1 ! i = ?c1" "drop (Suc i) ?cs1 = drop (i + ?n) ?cs"
    by (simp_all add: nth_append)
  have e: "enableByteView cns r ?v1 =
     (None, ?v1\<lparr> store := setByteView (Some False) r (store ?v1),
                 columns := take i ?cs @ [?c1\<lparr> header := None \<rparr>] @ ?items @ drop (i + ?n) ?cs \<rparr>)"
    using enableByteView_found [OF fresh1 idx1] t h1 by simp
  have offs: "\<And>j. j < length fresh \<Longrightarrow> offset (fresh ! j) = j"
    using stateColumns_Inr(1,2) [OF fresh] by simp
  have items: "map ?f ?items = map ?f (take (?n - 1) (drop (Suc i) ?cs))"
    by (rule rawRun_items [OF run offs])
  have "map ?f (take i ?cs @ [?c1\<lparr> header := None \<rparr>] @ ?items @ drop (i + ?n) ?cs)
      = map ?f (take i ?cs @ [?cs ! i] @ take (?n - 1) (drop (Suc i) ?cs) @ drop (i + ?n) ?cs)"
    using items by simp
  also have "\<dots> = map ?f ?cs"
    using split_run [OF fit len] by simp
  finally have m: "map ?f (take i ?cs @ [?c1\<lparr> header := None \<rparr>] @ ?items @ drop (i + ?n) ?cs)
      = map ?f ?cs" .
  from e have e1: "fst (enableByteView cns r ?v1) = None"
    and e2: "columns (snd (enableByteView cns r ?v1))
      = take i ?cs @ [?c1\<lparr> header := None \<rparr>] @ ?items @ drop (i + ?n) ?cs"
    by simp_all
  show ?thesis
    unfolding d fst_conv snd_conv e1 e2 m by simp
qed

lemma fresh_rawRun:
  "off + n \<le> length fresh \<Longrightarrow> (\<And>j. j < length fresh \<Longrightarrow> offset (fresh ! j) = j) \<Longrightarrow>
     rawRun fresh fresh off off n"
  by (simp add: rawRun_def)

lemma fresh_findIndex:
  assumes "off < length fresh" and "\<And>j. j < length fresh \<Longrightarrow> offset (fresh ! j) = j"
  shows "findIndex (\<lambda>col. offset col = off) fresh = Some off"
  by (rule findIndex_first) (use assms in auto)

lemma exColumns_eq: "stateColumns 1 exStats = Inr exColumns"
  using stateColumns_fits [OF constructsFit_exStats, of 1] by (auto simp: exColumns_def)

theorem toggle_roundtrip_witness:
  "stateColumns 1 (columnStats (exToggle 0 2)) = Inr exColumns \<and>
   findIndex (\<lambda>col. offset col = offset_h (store (exToggle 0 2) 0)) (columns (exToggle 0 2)) = Some 0 \<and>
   1 \<le> length_h (store (exToggle 0 2) 0) \<and>
   rawRun exColumns (columns (exToggle 0 2)) 0 (offset_h (store (exToggle 0 2) 0))
     (length_h (store (exToggle 0 2) 0)) \<and>
   length (columns (exToggle 0 2)) = 4 \<and>
   length (columns (snd (disableByteView 0 (exToggle 0 2)))) = 3 \<and>
   fst (disableByteView 0 (exToggle 0 2)) = None \<and>
   fst (enableByteView 1 0 (snd (disableByteView 0 (exToggle 0 2)))) = None \<and>
   map (\<lambda>c. (offset c, stats c)) (columns (snd (enableByteView 1 0 (snd (disableByteView 0 (exToggle 0 2))))))
     = map (\<lambda>c. (offset c, stats c)) (columns (exToggle 0 2))"
proof -
  let ?v = "exToggle 0 2"
  have f: "stateColumns 1 (columnStats ?v) = Inr exColumns"
    using exColumns_eq by (simp add: exToggle_def)
  have len: "length exColumns = 4"
    using stateColumns_Inr(1) [OF exColumns_eq] by (simp add: exStats_def)
  have offs: "\<And>j. j < length exColumns \<Longrightarrow> offset (exColumns ! j) = j"
    using stateColumns_Inr(1,2) [OF exColumns_eq] by simp
  have i: "findIndex (\<lambda>col. offset col = offset_h (store ?v 0)) (columns ?v) = Some 0"
    using fresh_findIndex [of 0 exColumns] offs len by (simp add: exToggle_def)
  have n: "1 \<le> length_h (store ?v 0)" by (simp add: exToggle_def)
  have r: "rawRun exColumns (columns ?v) 0 (offset_h (store ?v 0)) (length_h (store ?v 0))"
    using fresh_rawRun [of 0 2 exColumns] offs len by (simp add: exToggle_def)
  have l0: "length (columns ?v) = 4" using len by (simp add: exToggle_def)
  have l1: "length (columns (snd (disableByteView 0 ?v))) = 3"
    using disableByteView_found [OF i n] l0 by (simp add: exToggle_def)
  from toggle_roundtrip [OF f i n r] f i n r l0 l1 show ?thesis by blast
qed

subsection \<open>What the other operations do to the length of the sequence\<close>







section \<open>Properties of \<open>tryImportHeaders\<close>\<close>

lemma importLoop_append:
  assumes "importLoop X (Some f) cstats off pre v = (None, v')"
  shows "importLoop X (Some f) cstats off (pre @ post) v =
         importLoop X (Some f) cstats (off + sum_list (map (\<lambda>e. getHeaderLength X e (memsize_f f)) pre)) post v'"
  using assms
proof (induction pre arbitrary: off v)
  case Nil
  then show ?case by simp
next
  case (Cons e pre)
  let ?n = "getHeaderLength X e (memsize_f f)"
  show ?case
  proof (cases "name_s e = None")
    case True
    with Cons.prems have "importLoop X (Some f) cstats (off + ?n) pre v = (None, v')"
      by (simp add: Let_def)
    from Cons.IH [OF this] True show ?thesis by (simp add: add.assoc Let_def)
  next
    case False
    with Cons.prems have valid: "validateImportedHeader X (candidate ?n off e) cstats"
      by (auto simp: Let_def split: if_splits)
    from Cons.prems False valid obtain v1 where
      step: "importEntry X e (candidate ?n off e) v = (None, v1)" and
      rest: "importLoop X (Some f) cstats (off + ?n) pre v1 = (None, v')"
      by (auto simp: Let_def split: prod.splits option.splits)
    from Cons.IH [OF rest] False valid step show ?thesis
      by (auto simp: add.assoc Let_def)
  qed
qed

text \<open>
  Claim C2. Let the entries \<open>pre\<close> be imported without an exception, leaving the
  viewer \<open>v'\<close>, and let the next entry \<open>bad\<close> have a name and be rejected by
  \<open>validateImportedHeader\<close> at the offset accumulated so far. Then the import of
  \<open>pre @ bad # post\<close> raises \<open>Error('The schema is invalid.')\<close>, whatever \<open>post\<close> is,
  and leaves the viewer \<open>v'\<close>: the columns collapsed by \<open>pre\<close> stay collapsed.
\<close>

theorem tryImportHeaders_invalid:
  assumes "datFile v = Some f"
    and "tryImportHeaders X pre v = (None, v')"
    and "name_s bad \<noteq> None"
    and "\<not> validateImportedHeader X
            (candidate (getHeaderLength X bad (memsize_f f))
               (sum_list (map (\<lambda>e. getHeaderLength X e (memsize_f f)) pre)) bad)
            (columnStats v)"
  shows "tryImportHeaders X (pre @ bad # post) v = (Some (Error ''The schema is invalid.''), v')"
proof -
  from assms(1,2) have "importLoop X (Some f) (columnStats v) 0 pre v = (None, v')"
    by (simp add: tryImportHeaders_def)
  from importLoop_append [OF this, of "bad # post"] assms(1,3,4) show ?thesis
    by (simp add: tryImportHeaders_def)
qed


theorem tryImportHeaders_invalid_witness:
  "datFile exLoaded = Some \<lparr> rowCount = 1, rowLength = 8, memsize_f = 4 \<rparr> \<and>
   fst (tryImportHeaders exExternals [exSchema ! 0] exLoaded) = None \<and>
   name_s (exSchema ! 1) = Some ''s'' \<and>
   \<not> validateImportedHeader exExternals (candidate 4 4 (exSchema ! 1)) (columnStats exLoaded) \<and>
   fst (tryImportHeaders exExternals exSchema exLoaded) = Some (Error ''The schema is invalid.'') \<and>
   snd (tryImportHeaders exExternals exSchema exLoaded)
     = snd (tryImportHeaders exExternals [exSchema ! 0] exLoaded) \<and>
   length (columns exLoaded) = 8 \<and>
   map (\<lambda>c. (offset c, header c)) (columns (snd (tryImportHeaders exExternals exSchema exLoaded)))
     = [(0, Some 0), (4, None), (5, None), (6, None), (7, None)]"
proof -
  let ?f = "\<lparr> rowCount = 1, rowLength = 8, memsize_f = 4 \<rparr>"
  let ?pre = "[exSchema ! 0]" and ?bad = "exSchema ! 1" and ?post = "[exSchema ! 2]"
  obtain v' where p: "tryImportHeaders exExternals ?pre exLoaded = (None, v')"
  proof -
    have "fst (tryImportHeaders exExternals ?pre exLoaded) = None" by code_simp
    then show ?thesis using that by (cases "tryImportHeaders exExternals ?pre exLoaded") simp
  qed
  have d: "datFile exLoaded = Some ?f" by (simp add: exLoaded_def)
  have n: "name_s ?bad \<noteq> None" by code_simp
  have g: "getHeaderLength exExternals ?bad (memsize_f ?f) = 4" by code_simp
  have s: "sum_list (map (\<lambda>e. getHeaderLength exExternals e (memsize_f ?f)) ?pre) = 4" by code_simp
  have nv: "\<not> validateImportedHeader exExternals (candidate 4 4 ?bad) (columnStats exLoaded)"
    by code_simp
  have split: "exSchema = ?pre @ ?bad # ?post" by code_simp
  have cols: "map (\<lambda>c. (offset c, header c)) (columns (snd (tryImportHeaders exExternals ?pre exLoaded)))
     = [(0, Some 0), (4, None), (5, None), (6, None), (7, None)]" by code_simp
  have l: "length (columns exLoaded) = 8" by code_simp
  have nm: "name_s ?bad = Some ''s''" by code_simp
  from tryImportHeaders_invalid [OF d p n, of ?post] nv g s
  have "tryImportHeaders exExternals (?pre @ ?bad # ?post) exLoaded
      = (Some (Error ''The schema is invalid.''), v')" by simp
  then have r: "tryImportHeaders exExternals exSchema exLoaded = (Some (Error ''The schema is invalid.''), v')"
    using split by simp
  from r p cols d nv l nm show ?thesis by simp
qed

end
